theory Spec2Isabelle
  imports Main "HOL-Library.Word" "HOL-Library.Monad_Syntax"
begin

section \<open>TreeMap.h: the program\<close>

text \<open>
  \<^verbatim>\<open>TreeMap<K, V>\<close> is a map kept as an unbalanced binary search tree of heap nodes that
  are linked by raw pointers, with a lazy in-order iterator that holds a stack of node
  pointers. The code mutates the nodes in place (\<^verbatim>\<open>current->right = addHelper(...)\<close>),
  frees them (\<^verbatim>\<open>delete\<close>) and compares iterators by the identity of the nodes they point to,
  so the model keeps an explicit store: a heap from addresses to nodes, passed through every
  operation and returned updated.

  Conventions of the embedding:
  \<^item> a \<^verbatim>\<open>TreeMapNode*\<close> is an \<open>addr option\<close>, \<open>None\<close> being \<^verbatim>\<open>nullptr\<close>;
  \<^item> a C++ exception is a value \<open>Inl e\<close> of a sum type; a call that throws returns the store
    it leaves behind together with the exception;
  \<^item> every operation that follows pointers returns an \<open>option\<close>: \<open>None\<close> stands for a run
    without a defined result, which is either a recursion or loop that never ends (a cyclic
    heap) or undefined behaviour of C++ (reading or writing through a null or dangling
    pointer, freeing a dangling one). The theorems below always show a \<open>Some\<close> result;
  \<^item> \<^verbatim>\<open>K\<close> "must support the <, > and == operators": it is a type of class \<open>linorder\<close>;
  \<^item> \<^verbatim>\<open>unsigned int\<close> is a 32-bit word, with C++'s wrap-around;
  \<^item> members whose C++ name ends in an underscore (\<^verbatim>\<open>size_\<close>, \<^verbatim>\<open>root_\<close>,
    \<^verbatim>\<open>toBeProcessed_\<close>) carry the suffix \<open>_f\<close>, since an Isabelle name cannot end in one.

  The destructor of the map and \<^verbatim>\<open>operator<<\<close> are not modelled: no property below is
  about them.
\<close>

subsection \<open>Data\<close>

type_synonym addr = nat

text \<open>\<^verbatim>\<open>struct Node { pair<K, V> payload; Node* right; Node* left; }\<close>\<close>

record ('k, 'v) TreeMapNode =
  payload :: "'k \<times> 'v"
  right :: "addr option"
  left :: "addr option"

type_synonym ('k, 'v) heap = "addr \<Rightarrow> ('k, 'v) TreeMapNode option"

text \<open>The private members of \<^verbatim>\<open>TreeMap\<close>: \<^verbatim>\<open>unsigned int size_; TreeMapNode* root_;\<close>\<close>

record TreeMap =
  size_f :: "32 word"
  root_f :: "addr option"

text \<open>
  The private member of \<^verbatim>\<open>TreeIterator\<close>: \<^verbatim>\<open>stack<TreeMapNode*>* toBeProcessed_\<close>, the top
  of the stack being the head of the list. Each iterator owns a stack of its own (both
  constructors allocate one, the copy constructor copies the contents), so the iterator is
  modelled by the contents of its stack. Every \<^verbatim>\<open>push\<close> in the source is guarded by a test
  against \<^verbatim>\<open>nullptr\<close>, so the stack holds addresses.
\<close>

record TreeIterator =
  toBeProcessed_f :: "addr list"

text \<open>Both exceptions of the source are \<^verbatim>\<open>std::out_of_range\<close>; they differ in the message.\<close>

datatype exn = out_of_range string

abbreviation KeyNotFound :: exn where
  "KeyNotFound \<equiv> out_of_range ''No such key exists in this tree.''"

abbreviation IteratorExhausted :: exn where
  "IteratorExhausted \<equiv> out_of_range ''This iterator is past its end.''"

subsection \<open>Access to the store\<close>

text \<open>Reading \<^verbatim>\<open>*p\<close>: undefined when \<open>p\<close> is null or does not point to a live node.\<close>

definition load :: "('k, 'v) heap \<Rightarrow> addr option \<Rightarrow> ('k, 'v) TreeMapNode option" where
  "load h p = (case p of None \<Rightarrow> None | Some a \<Rightarrow> h a)"

text \<open>The assignments \<^verbatim>\<open>p->right = r\<close> and \<^verbatim>\<open>p->left = l\<close>.\<close>

definition store_right ::
  "('k, 'v) heap \<Rightarrow> addr option \<Rightarrow> addr option \<Rightarrow> ('k, 'v) heap option" where
  "store_right h p r =
     (case p of None \<Rightarrow> None
      | Some a \<Rightarrow> (case h a of None \<Rightarrow> None | Some n \<Rightarrow> Some (h(a \<mapsto> n\<lparr>right := r\<rparr>))))"

definition store_left ::
  "('k, 'v) heap \<Rightarrow> addr option \<Rightarrow> addr option \<Rightarrow> ('k, 'v) heap option" where
  "store_left h p l =
     (case p of None \<Rightarrow> None
      | Some a \<Rightarrow> (case h a of None \<Rightarrow> None | Some n \<Rightarrow> Some (h(a \<mapsto> n\<lparr>left := l\<rparr>))))"

text \<open>\<^verbatim>\<open>delete p\<close>: nothing happens for a null pointer; freeing a dead address is undefined.\<close>

definition delete :: "('k, 'v) heap \<Rightarrow> addr option \<Rightarrow> ('k, 'v) heap option" where
  "delete h p =
     (case p of None \<Rightarrow> Some h
      | Some a \<Rightarrow> (case h a of None \<Rightarrow> None | Some n \<Rightarrow> Some (h(a := None))))"

subsection \<open>The map operations\<close>

text \<open>The constructor \<^verbatim>\<open>TreeMap() : size_(0), root_(nullptr)\<close>.\<close>

definition TreeMap_ctor :: TreeMap where
  "TreeMap_ctor = \<lparr>size_f = 0, root_f = None\<rparr>"

text \<open>
  \<^verbatim>\<open>addHelper(current, newElement, success)\<close>, lines 211-229. The result is the store, the
  returned pointer and the value written to \<^verbatim>\<open>*success\<close> (every returning path writes it
  exactly once, in the innermost call).
\<close>

partial_function (option) addHelper ::
  "('k::linorder, 'v) heap \<Rightarrow> addr option \<Rightarrow> addr option
     \<Rightarrow> (('k, 'v) heap \<times> addr option \<times> bool) option"
where
  "addHelper h current newElement =
    (if current = None then Some (h, newElement, True)
     else do {
       cur \<leftarrow> load h current;
       new \<leftarrow> load h newElement;
       if fst (payload cur) < fst (payload new) then do {
         (h1, r, success) \<leftarrow> addHelper h (right cur) newElement;
         h2 \<leftarrow> store_right h1 current r;
         Some (h2, current, success)
       } else if fst (payload cur) > fst (payload new) then do {
         (h1, l, success) \<leftarrow> addHelper h (left cur) newElement;
         h2 \<leftarrow> store_left h1 current l;
         Some (h2, current, success)
       } else do {
         h1 \<leftarrow> delete h newElement;
         Some (h1, current, False)
       }
     })"

text \<open>
  \<^verbatim>\<open>add(key, value)\<close>, lines 190-207. The outcome of \<^verbatim>\<open>new TreeMapNode{...}\<close> is an input
  of the model: \<open>None\<close> when it throws \<^verbatim>\<open>std::bad_alloc\<close> (which \<^verbatim>\<open>add\<close> catches), \<open>Some a\<close>
  when it returns the address \<open>a\<close> of the new node. That \<open>a\<close> was not live before is the
  allocator's contract, a hypothesis \<open>h a = None\<close> of the theorems.
\<close>

definition add ::
  "addr option \<Rightarrow> 'k::linorder \<Rightarrow> 'v \<Rightarrow> ('k, 'v) heap \<times> TreeMap
     \<Rightarrow> ((('k, 'v) heap \<times> TreeMap) \<times> bool) option"
where
  "add alloc key val s =
    (case s of (h, tm) \<Rightarrow>
      (case alloc of
         None \<Rightarrow> Some ((h, tm), False)
       | Some a \<Rightarrow> do {
           let h0 = h(a \<mapsto> \<lparr>payload = (key, val), right = None, left = None\<rparr>);
           (h1, r, success) \<leftarrow> addHelper h0 (root_f tm) (Some a);
           let tm1 = tm\<lparr>root_f := r\<rparr>;
           Some ((h1, if success then tm1\<lparr>size_f := size_f tm1 + 1\<rparr> else tm1), success)
         }))"

text \<open>
  \<^verbatim>\<open>removeHelper(current, key, retVal)\<close>, lines 239-276. A normal return gives the returned
  pointer and the value written to \<^verbatim>\<open>*retVal\<close>. The exception leaves a recursive call before
  the assignment to \<^verbatim>\<open>current->right\<close> or \<^verbatim>\<open>current->left\<close> that surrounds it.
\<close>

partial_function (option) removeHelper ::
  "('k::linorder, 'v) heap \<Rightarrow> addr option \<Rightarrow> 'k
     \<Rightarrow> (('k, 'v) heap \<times> (exn + addr option \<times> 'v)) option"
where
  "removeHelper h current key =
    (if current = None then Some (h, Inl KeyNotFound)
     else do {
       cur \<leftarrow> load h current;
       if fst (payload cur) < key then do {
         (h1, res) \<leftarrow> removeHelper h (right cur) key;
         case res of
           Inl e \<Rightarrow> Some (h1, Inl e)
         | Inr (r, retVal) \<Rightarrow> do {
             h2 \<leftarrow> store_right h1 current r;
             Some (h2, Inr (current, retVal))
           }
       } else if fst (payload cur) > key then do {
         (h1, res) \<leftarrow> removeHelper h (left cur) key;
         case res of
           Inl e \<Rightarrow> Some (h1, Inl e)
         | Inr (l, retVal) \<Rightarrow> do {
             h2 \<leftarrow> store_left h1 current l;
             Some (h2, Inr (current, retVal))
           }
       } else do {
         let retVal = snd (payload cur);
         (h1, remainingSubtree) \<leftarrow>
           (if right cur \<noteq> None then do {
              (h1, r, unused) \<leftarrow> addHelper h (left cur) (right cur);
              Some (h1, r)
            } else Some (h, left cur));
         h2 \<leftarrow> delete h1 current;
         Some (h2, Inr (remainingSubtree, retVal))
       }
     })"

text \<open>
  \<^verbatim>\<open>remove(key)\<close>, lines 231-237: when \<^verbatim>\<open>removeHelper\<close> throws, neither the assignment to
  \<^verbatim>\<open>root_\<close> nor \<^verbatim>\<open>size_--\<close> is executed.
\<close>

definition remove ::
  "'k::linorder \<Rightarrow> ('k, 'v) heap \<times> TreeMap
     \<Rightarrow> ((('k, 'v) heap \<times> TreeMap) \<times> (exn + 'v)) option"
where
  "remove key s =
    (case s of (h, tm) \<Rightarrow> do {
       (h1, res) \<leftarrow> removeHelper h (root_f tm) key;
       case res of
         Inl e \<Rightarrow> Some ((h1, tm), Inl e)
       | Inr (r, retVal) \<Rightarrow> do {
           let tm1 = tm\<lparr>root_f := r\<rparr>;
           Some ((h1, tm1\<lparr>size_f := size_f tm1 - 1\<rparr>), Inr retVal)
         }
     })"

text \<open>
  \<^verbatim>\<open>atHelper(current, key)\<close>, lines 283-297, and \<^verbatim>\<open>at(key)\<close>, lines 278-281. Both are
  \<^verbatim>\<open>const\<close> and write nothing, so they return no store. The model returns the value that
  the returned reference \<^verbatim>\<open>V&\<close> points to.
\<close>

partial_function (option) atHelper ::
  "('k::linorder, 'v) heap \<Rightarrow> addr option \<Rightarrow> 'k \<Rightarrow> (exn + 'v) option"
where
  "atHelper h current key =
    (if current = None then Some (Inl KeyNotFound)
     else do {
       cur \<leftarrow> load h current;
       if fst (payload cur) < key then atHelper h (right cur) key
       else if fst (payload cur) > key then atHelper h (left cur) key
       else Some (Inr (snd (payload cur)))
     })"

definition at :: "'k::linorder \<Rightarrow> ('k, 'v) heap \<times> TreeMap \<Rightarrow> (exn + 'v) option" where
  "at key s = (case s of (h, tm) \<Rightarrow> atHelper h (root_f tm) key)"

text \<open>\<^verbatim>\<open>size()\<close>, lines 299-302.\<close>

definition size_tm :: "TreeMap \<Rightarrow> 32 word" where
  "size_tm tm = size_f tm"

subsection \<open>The iterator\<close>

text \<open>
  The loop \<^verbatim>\<open>while (root != nullptr) { toBeProcessed_->push(root); root = root->left; }\<close>
  of the constructor (lines 307-313), which \<^verbatim>\<open>operator++\<close> repeats word for word on
  \<^verbatim>\<open>current\<close> (lines 344-347).
\<close>

partial_function (option) push_left_chain ::
  "('k, 'v) heap \<Rightarrow> addr option \<Rightarrow> addr list \<Rightarrow> addr list option"
where
  "push_left_chain h root st =
    (case root of
       None \<Rightarrow> Some st
     | Some a \<Rightarrow> do {
         n \<leftarrow> h a;
         push_left_chain h (left n) (a # st)
       })"

text \<open>\<^verbatim>\<open>TreeIterator(TreeMapNode* root)\<close>, lines 304-314.\<close>

definition TreeIterator_root :: "('k, 'v) heap \<Rightarrow> addr option \<Rightarrow> TreeIterator option" where
  "TreeIterator_root h root = do {
     st \<leftarrow> push_left_chain h root [];
     Some \<lparr>toBeProcessed_f = st\<rparr>
   }"

text \<open>\<^verbatim>\<open>TreeIterator()\<close>, line 51: the past-the-end iterator, with an empty stack.\<close>

definition TreeIterator_end :: TreeIterator where
  "TreeIterator_end = \<lparr>toBeProcessed_f = []\<rparr>"

text \<open>\<^verbatim>\<open>begin()\<close> and \<^verbatim>\<open>end()\<close>, lines 126 and 130.\<close>

definition begin_tm :: "('k, 'v) heap \<times> TreeMap \<Rightarrow> TreeIterator option" where
  "begin_tm s = (case s of (h, tm) \<Rightarrow> TreeIterator_root h (root_f tm))"

definition end_tm :: "('k, 'v) heap \<times> TreeMap \<Rightarrow> TreeIterator" where
  "end_tm s = TreeIterator_end"

text \<open>\<^verbatim>\<open>isLegal()\<close>, line 75.\<close>

definition isLegal :: "TreeIterator \<Rightarrow> bool" where
  "isLegal it = (length (toBeProcessed_f it) \<noteq> 0)"

text \<open>
  \<^verbatim>\<open>operator==\<close> and \<^verbatim>\<open>operator!=\<close>, lines 322-330, are the comparison of the two
  \<^verbatim>\<open>std::stack\<close> objects, which is the comparison of the sequences of pointers they hold.
\<close>

definition operator_eq :: "TreeIterator \<Rightarrow> TreeIterator \<Rightarrow> bool" where
  "operator_eq it rhs = (toBeProcessed_f it = toBeProcessed_f rhs)"

definition operator_neq :: "TreeIterator \<Rightarrow> TreeIterator \<Rightarrow> bool" where
  "operator_neq it rhs = (toBeProcessed_f it \<noteq> toBeProcessed_f rhs)"

text \<open>
  \<^verbatim>\<open>operator++()\<close>, lines 332-350: the iterator after the call, with the exception if one
  was thrown.
\<close>

definition operator_preinc ::
  "('k, 'v) heap \<Rightarrow> TreeIterator \<Rightarrow> (TreeIterator \<times> (exn + unit)) option"
where
  "operator_preinc h it =
    (if \<not> isLegal it then Some (it, Inl IteratorExhausted)
     else do {
       let current = hd (toBeProcessed_f it);
       let it1 = it\<lparr>toBeProcessed_f := tl (toBeProcessed_f it)\<rparr>;
       cur \<leftarrow> h current;
       if right cur \<noteq> None then do {
         st \<leftarrow> push_left_chain h (right cur) (toBeProcessed_f it1);
         Some (it1\<lparr>toBeProcessed_f := st\<rparr>, Inr ())
       } else Some (it1, Inr ())
     })"

text \<open>
  \<^verbatim>\<open>operator++(int)\<close>, lines 352-358: \<^verbatim>\<open>tmp\<close> is a copy of the iterator before the call, and
  is returned when \<^verbatim>\<open>operator++()\<close> does not throw.
\<close>

definition operator_postinc ::
  "('k, 'v) heap \<Rightarrow> TreeIterator \<Rightarrow> (TreeIterator \<times> (exn + TreeIterator)) option"
where
  "operator_postinc h it = do {
     let tmp = it;
     (it1, res) \<leftarrow> operator_preinc h it;
     case res of
       Inl e \<Rightarrow> Some (it1, Inl e)
     | Inr u \<Rightarrow> Some (it1, Inr tmp)
   }"

text \<open>
  \<^verbatim>\<open>operator*\<close>, lines 360-366, and \<^verbatim>\<open>operator->\<close>, lines 368-375: both are
  \<^verbatim>\<open>const\<close>; the model returns the payload that the returned reference or pointer
  designates.
\<close>

definition operator_deref ::
  "('k, 'v) heap \<Rightarrow> TreeIterator \<Rightarrow> (exn + 'k \<times> 'v) option"
where
  "operator_deref h it =
    (if \<not> isLegal it then Some (Inl IteratorExhausted)
     else do {
       top \<leftarrow> h (hd (toBeProcessed_f it));
       Some (Inr (payload top))
     })"

definition operator_arrow ::
  "('k, 'v) heap \<Rightarrow> TreeIterator \<Rightarrow> (exn + 'k \<times> 'v) option"
where
  "operator_arrow h it =
    (if \<not> isLegal it then Some (Inl IteratorExhausted)
     else do {
       let current = hd (toBeProcessed_f it);
       cur \<leftarrow> h current;
       Some (Inr (payload cur))
     })"

subsection \<open>Client code\<close>

text \<open>
  The loop by which a client walks a map,
  \<^verbatim>\<open>for (auto it = tm.begin(); it != tm.end(); ++it) out.push_back(*it);\<close>
  started at a given iterator. It returns the payloads it has seen, or the exception that
  one of the two iterator operations has thrown.
\<close>

partial_function (option) iterate ::
  "('k, 'v) heap \<Rightarrow> TreeIterator \<Rightarrow> (exn + ('k \<times> 'v) list) option"
where
  "iterate h it =
    (if operator_neq it TreeIterator_end then do {
       res \<leftarrow> operator_deref h it;
       case res of
         Inl e \<Rightarrow> Some (Inl e)
       | Inr kv \<Rightarrow> do {
           (it1, adv) \<leftarrow> operator_preinc h it;
           case adv of
             Inl e \<Rightarrow> Some (Inl e)
           | Inr u \<Rightarrow> do {
               rest \<leftarrow> iterate h it1;
               case rest of
                 Inl e \<Rightarrow> Some (Inl e)
               | Inr kvs \<Rightarrow> Some (Inr (kv # kvs))
             }
         }
     } else Some (Inr []))"

text \<open>\<open>n\<close> times \<^verbatim>\<open>++it\<close>, stopping at the first exception.\<close>

fun advance ::
  "('k, 'v) heap \<Rightarrow> nat \<Rightarrow> TreeIterator \<Rightarrow> (TreeIterator \<times> (exn + unit)) option"
where
  "advance h 0 it = Some (it, Inr ())"
| "advance h (Suc n) it = do {
     (it1, adv) \<leftarrow> operator_preinc h it;
     case adv of
       Inl e \<Rightarrow> Some (it1, Inl e)
     | Inr u \<Rightarrow> advance h n it1
   }"

text \<open>
  A sequence of calls \<^verbatim>\<open>add(k, v)\<close>, each with the outcome of its \<^verbatim>\<open>new\<close>; the result
  has the value returned by each call.
\<close>

fun add_all ::
  "(addr option \<times> 'k::linorder \<times> 'v) list \<Rightarrow> ('k, 'v) heap \<times> TreeMap
     \<Rightarrow> ((('k, 'v) heap \<times> TreeMap) \<times> bool list) option"
where
  "add_all [] s = Some (s, [])"
| "add_all ((alloc, k, v) # xs) s = do {
     (s1, b) \<leftarrow> add alloc k v s;
     (s2, bs) \<leftarrow> add_all xs s1;
     Some (s2, b # bs)
   }"

text \<open>
  The contract of \<^verbatim>\<open>new\<close> for the outcome \<open>alloc\<close> in the store \<open>h\<close>: an address that it
  returns was not live.
\<close>

definition alloc_ok :: "('k, 'v) heap \<Rightarrow> addr option \<Rightarrow> bool" where
  "alloc_ok h alloc = (case alloc of None \<Rightarrow> True | Some a \<Rightarrow> h a = None)"

text \<open>The addresses that \<^verbatim>\<open>new\<close> returns in a sequence of calls of \<^verbatim>\<open>add\<close>.\<close>

fun allocated :: "(addr option \<times> 'k \<times> 'v) list \<Rightarrow> addr list" where
  "allocated [] = []"
| "allocated ((alloc, k, v) # xs) =
     (case alloc of None \<Rightarrow> allocated xs | Some a \<Rightarrow> a # allocated xs)"

section \<open>The tree that the store holds\<close>

text \<open>
  The shape of the nodes reachable from a pointer, as a value: \<open>Br l a kv r\<close> is the node at
  address \<open>a\<close> with payload \<open>kv\<close>, left subtree \<open>l\<close> and right subtree \<open>r\<close>. It is not part of
  the program; it says what "the tree", "a key present in the tree" and "the number of
  nodes reachable from the root" mean for a store and a root pointer.
\<close>

datatype ('k, 'v) tree = Tip | Br "('k, 'v) tree" addr "'k \<times> 'v" "('k, 'v) tree"

fun tree_of :: "('k, 'v) heap \<Rightarrow> addr option \<Rightarrow> ('k, 'v) tree \<Rightarrow> bool" where
  "tree_of h p Tip = (p = None)"
| "tree_of h p (Br l a kv r) =
     (p = Some a \<and>
      (case h a of
         None \<Rightarrow> False
       | Some n \<Rightarrow> payload n = kv \<and> tree_of h (left n) l \<and> tree_of h (right n) r))"

fun inorder :: "('k, 'v) tree \<Rightarrow> ('k \<times> 'v) list" where
  "inorder Tip = []"
| "inorder (Br l a kv r) = inorder l @ kv # inorder r"

fun addrs :: "('k, 'v) tree \<Rightarrow> addr list" where
  "addrs Tip = []"
| "addrs (Br l a kv r) = addrs l @ a # addrs r"

definition keys :: "('k, 'v) tree \<Rightarrow> 'k list" where
  "keys t = map fst (inorder t)"

fun nodes :: "('k, 'v) tree \<Rightarrow> nat" where
  "nodes Tip = 0"
| "nodes (Br l a kv r) = nodes l + 1 + nodes r"

text \<open>
  The ordering invariant of the spec's data model: at every node, the keys of the left
  subtree are less than the node's key and the keys of the right subtree are greater.
\<close>

fun bst :: "('k::linorder, 'v) tree \<Rightarrow> bool" where
  "bst Tip = True"
| "bst (Br l a kv r) =
     (bst l \<and> bst r \<and> (\<forall>x \<in> set (keys l). x < fst kv) \<and> (\<forall>x \<in> set (keys r). fst kv < x))"

text \<open>
  The invariant of a \<^verbatim>\<open>TreeMap\<close> object \<open>tm\<close> in the store \<open>h\<close>: the nodes reachable from
  \<^verbatim>\<open>root_\<close> form the tree \<open>t\<close>, which is ordered, and \<^verbatim>\<open>size_\<close> is their number.
\<close>

definition TreeMap_inv :: "('k::linorder, 'v) heap \<times> TreeMap \<Rightarrow> ('k, 'v) tree \<Rightarrow> bool" where
  "TreeMap_inv s t =
     (case s of (h, tm) \<Rightarrow> tree_of h (root_f tm) t \<and> bst t \<and> unat (size_f tm) = nodes t)"

text \<open>
  What \<^verbatim>\<open>addHelper\<close> does to the shape \<open>t\<close> when \<^verbatim>\<open>newElement\<close> is the root of the shape
  \<open>s\<close> and has the key \<open>k\<close>: \<open>s\<close> is hung where the search for \<open>k\<close> leaves \<open>t\<close>, and
  nothing changes when \<open>k\<close> is met.
\<close>

fun graft :: "('k::linorder, 'v) tree \<Rightarrow> 'k \<Rightarrow> ('k, 'v) tree \<Rightarrow> ('k, 'v) tree" where
  "graft Tip k s = s"
| "graft (Br l a kv r) k s =
     (if fst kv < k then Br l a kv (graft r k s)
      else if fst kv > k then Br (graft l k s) a kv r
      else Br l a kv r)"

text \<open>What \<^verbatim>\<open>removeHelper\<close> does to the shape when the key is found.\<close>

fun root_key :: "('k, 'v) tree \<Rightarrow> 'k option" where
  "root_key Tip = None"
| "root_key (Br l a kv r) = Some (fst kv)"

fun unlink :: "('k::linorder, 'v) tree \<Rightarrow> 'k \<Rightarrow> ('k, 'v) tree" where
  "unlink Tip k = Tip"
| "unlink (Br l a kv r) k =
     (if fst kv < k then Br l a kv (unlink r k)
      else if fst kv > k then Br (unlink l k) a kv r
      else (case root_key r of None \<Rightarrow> l | Some kr \<Rightarrow> graft l kr r))"

text \<open>
  What the loop of the iterator's constructor pushes for the shape \<open>t\<close>: the addresses on
  the leftmost path of \<open>t\<close>, the deepest on top.
\<close>

fun left_spine :: "('k, 'v) tree \<Rightarrow> addr list \<Rightarrow> addr list" where
  "left_spine Tip st = st"
| "left_spine (Br l a kv r) st = left_spine l (a # st)"

text \<open>
  The stack of an iterator in the store \<open>h\<close>: every address on it is a live node, and
  \<open>rs\<close> lists, top first, the shapes of the right subtrees of these nodes, which the
  iterator has still to visit after the node itself.
\<close>

fun stack_of :: "('k, 'v) heap \<Rightarrow> addr list \<Rightarrow> ('k, 'v) tree list \<Rightarrow> bool" where
  "stack_of h [] rs = (rs = [])"
| "stack_of h (a # st) rs =
     (case rs of
        [] \<Rightarrow> False
      | r # rs' \<Rightarrow>
          (case h a of None \<Rightarrow> False | Some n \<Rightarrow> tree_of h (right n) r) \<and> stack_of h st rs')"

fun spine_rights :: "('k, 'v) tree \<Rightarrow> ('k, 'v) tree list \<Rightarrow> ('k, 'v) tree list" where
  "spine_rights Tip rs = rs"
| "spine_rights (Br l a kv r) rs = spine_rights l (r # rs)"

text \<open>The number of payloads that an iterator with such a stack has still to visit.\<close>

fun remaining :: "('k, 'v) tree list \<Rightarrow> nat" where
  "remaining [] = 0"
| "remaining (r # rs) = Suc (nodes r) + remaining rs"

section \<open>Stores used as examples\<close>

text \<open>
  The map of the spec's scenario, after \<^verbatim>\<open>add(5,'a')\<close>, \<^verbatim>\<open>add(3,'b')\<close> and \<^verbatim>\<open>add(8,'c')\<close>
  with the nodes allocated at the addresses 1, 2 and 3.
\<close>

definition ex_heap :: "(int, char) heap" where
  "ex_heap = [1 \<mapsto> \<lparr>payload = (5, CHR ''a''), right = Some 3, left = Some 2\<rparr>,
              2 \<mapsto> \<lparr>payload = (3, CHR ''b''), right = None, left = None\<rparr>,
              3 \<mapsto> \<lparr>payload = (8, CHR ''c''), right = None, left = None\<rparr>]"

definition ex_tm :: TreeMap where
  "ex_tm = \<lparr>size_f = 3, root_f = Some 1\<rparr>"

definition ex_tree :: "(int, char) tree" where
  "ex_tree = Br (Br Tip 2 (3, CHR ''b'') Tip) 1 (5, CHR ''a'') (Br Tip 3 (8, CHR ''c'') Tip)"

text \<open>
  Calls of \<^verbatim>\<open>add\<close> that build it, each with the outcome of its \<^verbatim>\<open>new\<close>; the third call
  finds no memory.
\<close>

definition ex_adds :: "(addr option \<times> int \<times> char) list" where
  "ex_adds = [(Some 1, 5, CHR ''a''), (Some 2, 3, CHR ''b''), (None, 9, CHR ''x''),
              (Some 3, 8, CHR ''c'')]"

text \<open>
  The store that holds exactly the nodes of a shape \<open>t\<close>, the map object that goes with
  it, and the calls of \<^verbatim>\<open>add\<close> that take the payloads of \<open>t\<close> root first (a node before
  the nodes of its subtrees), each with the address of its node as the outcome of \<^verbatim>\<open>new\<close>.
  Like the shape, they are not part of the program; they describe a store that is too large
  to be written down node by node.
\<close>

fun root_ptr :: "('k, 'v) tree \<Rightarrow> addr option" where
  "root_ptr Tip = None"
| "root_ptr (Br l a kv r) = Some a"

fun heap_of :: "('k, 'v) tree \<Rightarrow> ('k, 'v) heap" where
  "heap_of Tip = Map.empty"
| "heap_of (Br l a kv r) =
     (heap_of l ++ heap_of r)(a \<mapsto> \<lparr>payload = kv, right = root_ptr r, left = root_ptr l\<rparr>)"

definition tm_of :: "('k, 'v) tree \<Rightarrow> TreeMap" where
  "tm_of t = \<lparr>size_f = of_nat (nodes t), root_f = root_ptr t\<rparr>"

fun preorder :: "('k, 'v) tree \<Rightarrow> (addr option \<times> 'k \<times> 'v) list" where
  "preorder Tip = []"
| "preorder (Br l a kv r) = (Some a, fst kv, snd kv) # preorder l @ preorder r"

text \<open>The shape that a sequence of calls of \<^verbatim>\<open>add\<close> builds from the shape \<open>t\<close>.\<close>

fun graft_all ::
  "(addr option \<times> 'k::linorder \<times> 'v) list \<Rightarrow> ('k, 'v) tree \<Rightarrow> ('k, 'v) tree"
where
  "graft_all [] t = t"
| "graft_all ((alloc, k, v) # xs) t =
     (case alloc of
        None \<Rightarrow> graft_all xs t
      | Some a \<Rightarrow> graft_all xs (graft t k (Br Tip a (k, v) Tip)))"

text \<open>
  The number of nodes on the longest path from the root: the depth that the recursion of
  \<^verbatim>\<open>addHelper\<close>, \<^verbatim>\<open>removeHelper\<close> and \<^verbatim>\<open>atHelper\<close> reaches.
\<close>

fun height :: "('k, 'v) tree \<Rightarrow> nat" where
  "height Tip = 0"
| "height (Br l a kv r) = Suc (max (height l) (height r))"

text \<open>
  A map with 4294967295 keys, the largest value of the \<^verbatim>\<open>unsigned int\<close> counter
  \<^verbatim>\<open>size_\<close>. Its keys are \<open>1, ..., 4294967295\<close>, each with the value 0 and with its node
  at the address that equals the key. The calls \<open>full_adds\<close> add the middle key of a range
  before the keys of its two halves (2147483648, then 1073741824, 536870912, ...), so the
  tree is balanced: \<open>perfect lo d\<close> is the shape with the keys between \<open>lo\<close> and
  \<open>lo + 2 ^ d\<close>, of height \<open>d\<close>, and the map has the shape \<open>perfect 0 32\<close>.
\<close>

fun perfect :: "nat \<Rightarrow> nat \<Rightarrow> (nat, nat) tree" where
  "perfect lo 0 = Tip"
| "perfect lo (Suc d) = Br (perfect lo d) (lo + 2 ^ d) (lo + 2 ^ d, 0) (perfect (lo + 2 ^ d) d)"

definition full_tree :: "(nat, nat) tree" where
  "full_tree = perfect 0 32"

definition full_adds :: "(addr option \<times> nat \<times> nat) list" where
  "full_adds = preorder full_tree"

definition full_heap :: "(nat, nat) heap" where
  "full_heap = heap_of full_tree"

definition full_tm :: TreeMap where
  "full_tm = \<lparr>size_f = 4294967295, root_f = Some 2147483648\<rparr>"

text \<open>
  The store and the map object after one more call, \<^verbatim>\<open>add(4294967296, 0)\<close>, whose node is
  allocated at the address 4294967296.
\<close>

definition over_tree :: "(nat, nat) tree" where
  "over_tree = graft full_tree 4294967296 (Br Tip 4294967296 (4294967296, 0) Tip)"

definition over_heap :: "(nat, nat) heap" where
  "over_heap = heap_of over_tree"

definition over_tm :: TreeMap where
  "over_tm = \<lparr>size_f = 0, root_f = Some 2147483648\<rparr>"

section \<open>Properties of the operations\<close>

subsection \<open>The shape and the store\<close>

lemma tree_of_cong:
  "(\<forall>a \<in> set (addrs t). h' a = h a) \<Longrightarrow> tree_of h' p t = tree_of h p t"
  by (induction t arbitrary: p) (auto split: option.splits)

lemma tree_of_upd: "c \<notin> set (addrs t) \<Longrightarrow> tree_of (h(c := x)) p t = tree_of h p t"
  by (rule tree_of_cong) auto

lemma tree_of_live:
  "tree_of h p t \<Longrightarrow> a \<in> set (addrs t) \<Longrightarrow> \<exists>n. h a = Some n \<and> fst (payload n) \<in> set (keys t)"
proof (induction t arbitrary: p)
  case Tip then show ?case by simp
next
  case (Br l b kv r)
  from Br.prems(1) obtain n where n: "h b = Some n" "payload n = kv"
    "tree_of h (left n) l" "tree_of h (right n) r"
    by (auto split: option.splits)
  from Br.prems(2) consider "a \<in> set (addrs l)" | "a = b" | "a \<in> set (addrs r)" by auto
  then show ?case
  proof cases
    case 1 from Br.IH(1)[OF n(3) 1] show ?thesis by (auto simp: keys_def)
  next
    case 2 with n show ?thesis by (auto simp: keys_def)
  next
    case 3 from Br.IH(2)[OF n(4) 3] show ?thesis by (auto simp: keys_def)
  qed
qed

lemma tree_of_unique: "tree_of h p t \<Longrightarrow> tree_of h p t' \<Longrightarrow> t = t'"
proof (induction t arbitrary: p t')
  case Tip then show ?case by (cases t') auto
next
  case (Br l a kv r) then show ?case by (cases t') (auto split: option.splits)
qed

lemma bst_distinct_addrs: "tree_of h p t \<Longrightarrow> bst t \<Longrightarrow> distinct (addrs t)"
proof (induction t arbitrary: p)
  case Tip then show ?case by simp
next
  case (Br l a kv r)
  from Br.prems obtain n where n: "h a = Some n" "payload n = kv"
    "tree_of h (left n) l" "tree_of h (right n) r"
    by (auto split: option.splits)
  have "a \<notin> set (addrs l)" using tree_of_live[OF n(3), of a] n(1,2) Br.prems(2) by auto
  moreover have "a \<notin> set (addrs r)" using tree_of_live[OF n(4), of a] n(1,2) Br.prems(2) by auto
  moreover have "set (addrs l) \<inter> set (addrs r) = {}"
  proof (rule ccontr)
    assume "set (addrs l) \<inter> set (addrs r) \<noteq> {}"
    then obtain b where b: "b \<in> set (addrs l)" "b \<in> set (addrs r)" by auto
    from tree_of_live[OF n(3) b(1)] tree_of_live[OF n(4) b(2)] Br.prems(2)
    show False by fastforce
  qed
  ultimately show ?case using Br.IH(1)[OF n(3)] Br.IH(2)[OF n(4)] Br.prems(2) by simp
qed


lemma tree_of_BrE:
  assumes "tree_of h p (Br l a kv r)"
  obtains n where "p = Some a" "h a = Some n" "payload n = kv"
    "tree_of h (left n) l" "tree_of h (right n) r"
  using assms by (auto split: option.splits)

lemma addHelper_present:
  assumes "tree_of h p t" "bst t" "h n = Some nn" "fst (payload nn) \<in> set (keys t)"
    "n \<notin> set (addrs t)"
  shows "addHelper h p (Some n) = Some (h(n := None), p, False)"
  using assms
proof (induction t arbitrary: p)
  case Tip then show ?case by (simp add: keys_def)
next
  case (Br l c kv r)
  from Br.prems(1) obtain cn where cn: "p = Some c" "h c = Some cn" "payload cn = kv"
    "tree_of h (left cn) l" "tree_of h (right cn) r"
    by (rule tree_of_BrE)
  have ne: "c \<noteq> n" using Br.prems(5) by auto
  let ?k = "fst (payload nn)"
  consider (lt) "fst kv < ?k" | (gt) "?k < fst kv" | (eq) "?k = fst kv" by fastforce
  then show ?case
  proof cases
    case lt
    with Br.prems(2,4) have "?k \<in> set (keys r)" by (auto simp: keys_def)
    then have "addHelper h (right cn) (Some n) = Some (h(n := None), right cn, False)"
      using Br.prems by (intro Br.IH(2)[OF cn(5)]) auto
    with lt cn ne Br.prems(3) show ?thesis
      by (subst addHelper.simps) (simp add: load_def store_right_def fun_upd_idem)
  next
    case gt
    with Br.prems(2,4) have "?k \<in> set (keys l)" by (auto simp: keys_def)
    then have "addHelper h (left cn) (Some n) = Some (h(n := None), left cn, False)"
      using Br.prems by (intro Br.IH(1)[OF cn(4)]) auto
    moreover have "\<not> fst kv < ?k" using gt by simp
    ultimately show ?thesis using gt cn ne Br.prems(3)
      by (subst addHelper.simps) (simp add: load_def store_left_def fun_upd_idem)
  next
    case eq
    with cn Br.prems(3) show ?thesis
      by (subst addHelper.simps) (simp add: load_def delete_def)
  qed
qed

lemma addrs_graft: "set (addrs (graft t k s)) \<subseteq> set (addrs t) \<union> set (addrs s)"
  by (induction t) auto

lemma addHelper_absent:
  assumes "tree_of h p t" "bst t" "distinct (addrs t)" "h n = Some nn" "fst (payload nn) = k"
    "k \<notin> set (keys t)" "tree_of h (Some n) s" "set (addrs s) \<inter> set (addrs t) = {}"
  shows "\<exists>h'. addHelper h p (Some n) = Some (h', (if p = None then Some n else p), True)
           \<and> tree_of h' (if p = None then Some n else p) (graft t k s)
           \<and> (\<forall>a. a \<notin> set (addrs t) \<longrightarrow> h' a = h a)"
  using assms
proof (induction t arbitrary: p)
  case Tip then show ?case by (subst addHelper.simps) simp
next
  case (Br l c kv r)
  from Br.prems(1) obtain cn where cn: "p = Some c" "h c = Some cn" "payload cn = kv"
    "tree_of h (left cn) l" "tree_of h (right cn) r"
    by (rule tree_of_BrE)
  have cs: "c \<notin> set (addrs s)" using Br.prems(8) by auto
  have kne: "k \<noteq> fst kv" using Br.prems(6) by (auto simp: keys_def)
  then consider (lt) "fst kv < k" | (gt) "k < fst kv" by fastforce
  then show ?case
  proof cases
    case lt
    from Br.IH(2)[OF cn(5)] Br.prems obtain h1 where h1:
      "addHelper h (right cn) (Some n) = Some (h1, (if right cn = None then Some n else right cn), True)"
      "tree_of h1 (if right cn = None then Some n else right cn) (graft r k s)"
      "\<forall>a. a \<notin> set (addrs r) \<longrightarrow> h1 a = h a"
      by (auto simp: keys_def)
    let ?r' = "if right cn = None then Some n else right cn"
    let ?h2 = "h1(c \<mapsto> cn\<lparr>right := ?r'\<rparr>)"
    have h1c: "h1 c = Some cn" using h1(3) Br.prems(3) cn(2) by simp
    have run: "addHelper h p (Some n) = Some (?h2, p, True)"
      using lt cn h1(1) h1c Br.prems(4,5)
      by (subst addHelper.simps) (simp add: load_def store_right_def)
    have "c \<notin> set (addrs (graft r k s))" using addrs_graft[of r k s] cs Br.prems(3) by auto
    then have tr: "tree_of ?h2 ?r' (graft r k s)"
      using h1(2) tree_of_cong[of "graft r k s" ?h2 h1 ?r'] by simp
    have "\<forall>a \<in> set (addrs l). ?h2 a = h a" using h1(3) Br.prems(3) by auto
    then have tl: "tree_of ?h2 (left cn) l"
      using cn(4) tree_of_cong[of l ?h2 h "left cn"] by simp
    have "tree_of ?h2 p (graft (Br l c kv r) k s)" using lt tr tl cn(1,3) by simp
    moreover have "\<forall>a. a \<notin> set (addrs (Br l c kv r)) \<longrightarrow> ?h2 a = h a" using h1(3) by simp
    ultimately show ?thesis using run cn(1) by auto
  next
    case gt
    from Br.IH(1)[OF cn(4)] Br.prems obtain h1 where h1:
      "addHelper h (left cn) (Some n) = Some (h1, (if left cn = None then Some n else left cn), True)"
      "tree_of h1 (if left cn = None then Some n else left cn) (graft l k s)"
      "\<forall>a. a \<notin> set (addrs l) \<longrightarrow> h1 a = h a"
      by (auto simp: keys_def)
    let ?l' = "if left cn = None then Some n else left cn"
    let ?h2 = "h1(c \<mapsto> cn\<lparr>left := ?l'\<rparr>)"
    have h1c: "h1 c = Some cn" using h1(3) Br.prems(3) cn(2) by simp
    have nlt: "\<not> fst kv < k" using gt by simp
    have run: "addHelper h p (Some n) = Some (?h2, p, True)"
      using gt nlt cn h1(1) h1c Br.prems(4,5)
      by (subst addHelper.simps) (simp add: load_def store_left_def)
    have "c \<notin> set (addrs (graft l k s))" using addrs_graft[of l k s] cs Br.prems(3) by auto
    then have tl: "tree_of ?h2 ?l' (graft l k s)"
      using h1(2) tree_of_cong[of "graft l k s" ?h2 h1 ?l'] by simp
    have "\<forall>a \<in> set (addrs r). ?h2 a = h a" using h1(3) Br.prems(3) by auto
    then have tr: "tree_of ?h2 (right cn) r"
      using cn(5) tree_of_cong[of r ?h2 h "right cn"] by simp
    have "tree_of ?h2 p (graft (Br l c kv r) k s)" using gt nlt tr tl cn(1,3) by simp
    moreover have "\<forall>a. a \<notin> set (addrs (Br l c kv r)) \<longrightarrow> ?h2 a = h a" using h1(3) by simp
    ultimately show ?thesis using run cn(1) by auto
  qed
qed

subsection \<open>Grafting and unlinking on shapes; lookup\<close>

lemma nodes_graft: "k \<notin> set (keys t) \<Longrightarrow> nodes (graft t k s) = nodes t + nodes s"
  by (induction t) (auto simp: keys_def)

lemma inorder_graft_set:
  "k \<notin> set (keys t) \<Longrightarrow> set (inorder (graft t k s)) = set (inorder t) \<union> set (inorder s)"
  by (induction t) (auto simp: keys_def)

lemma keys_graft_set:
  "k \<notin> set (keys t) \<Longrightarrow> set (keys (graft t k s)) = set (keys t) \<union> set (keys s)"
  using inorder_graft_set[of k t s] by (auto simp: keys_def)

lemma bst_graft:
  assumes "bst t" "bst s" "k \<notin> set (keys t)"
    "\<forall>x \<in> set (keys t). \<forall>y \<in> set (keys s). (x < k \<and> x < y) \<or> (k < x \<and> y < x)"
  shows "bst (graft t k s)"
  using assms
proof (induction t)
  case Tip then show ?case by simp
next
  case (Br l a kv r)
  have kl: "k \<notin> set (keys l)" and kr: "k \<notin> set (keys r)" and kne: "k \<noteq> fst kv"
    using Br.prems(3) by (auto simp: keys_def)
  have cl: "\<forall>x \<in> set (keys l). \<forall>y \<in> set (keys s). (x < k \<and> x < y) \<or> (k < x \<and> y < x)"
    and cr: "\<forall>x \<in> set (keys r). \<forall>y \<in> set (keys s). (x < k \<and> x < y) \<or> (k < x \<and> y < x)"
    and ckv: "\<forall>y \<in> set (keys s). (fst kv < k \<and> fst kv < y) \<or> (k < fst kv \<and> y < fst kv)"
    using Br.prems(4) by (auto simp: keys_def)
  have bl: "bst (graft l k s)" using Br.IH(1) Br.prems(1,2) kl cl by simp
  have br: "bst (graft r k s)" using Br.IH(2) Br.prems(1,2) kr cr by simp
  show ?case
  proof (cases "fst kv < k")
    case True
    then have "\<forall>y \<in> set (keys s). fst kv < y" using ckv by auto
    then show ?thesis using True br Br.prems(1) keys_graft_set[OF kr, of s] by auto
  next
    case False
    then have "\<forall>y \<in> set (keys s). y < fst kv" using ckv by auto
    moreover have "k < fst kv" using False kne by simp
    ultimately show ?thesis using False bl Br.prems(1) keys_graft_set[OF kl, of s] by auto
  qed
qed

lemma root_key_in: "root_key r = Some kr \<Longrightarrow> kr \<in> set (keys r)"
  by (cases r) (auto simp: keys_def)

lemma root_key_None: "root_key r = None \<Longrightarrow> r = Tip"
  by (cases r) auto

lemma bst_unlink:
  "bst t \<Longrightarrow> bst (unlink t k) \<and> set (inorder (unlink t k)) = {kv \<in> set (inorder t). fst kv \<noteq> k}"
proof (induction t)
  case Tip then show ?case by simp
next
  case (Br l a kv r)
  have bl: "bst l" and br: "bst r" and ll: "\<forall>x \<in> set (keys l). x < fst kv"
    and rr: "\<forall>x \<in> set (keys r). fst kv < x"
    using Br.prems by auto
  note IHl = Br.IH(1)[OF bl] and IHr = Br.IH(2)[OF br]
  have ksl: "set (keys (unlink l k)) \<subseteq> set (keys l)" using IHl by (auto simp: keys_def)
  have ksr: "set (keys (unlink r k)) \<subseteq> set (keys r)" using IHr by (auto simp: keys_def)
  consider (lt) "fst kv < k" | (gt) "k < fst kv" | (eq) "fst kv = k" by fastforce
  then show ?case
  proof cases
    case lt
    have "\<forall>x \<in> set (inorder l). fst x \<noteq> k" using ll lt by (auto simp: keys_def)
    then show ?thesis using lt IHl IHr Br.prems ksr by auto
  next
    case gt
    have "\<forall>x \<in> set (inorder r). fst x \<noteq> k" using rr gt by (auto simp: keys_def)
    moreover have "\<not> fst kv < k" using gt by simp
    ultimately show ?thesis using gt IHl IHr Br.prems ksl by auto
  next
    case eq
    have nl: "\<forall>x \<in> set (inorder l). fst x \<noteq> k" using ll eq by (auto simp: keys_def)
    have nr: "\<forall>x \<in> set (inorder r). fst x \<noteq> k" using rr eq by (auto simp: keys_def)
    show ?thesis
    proof (cases "root_key r")
      case None
      then have "r = Tip" by (rule root_key_None)
      then show ?thesis using eq None bl nl by auto
    next
      case (Some kr)
      have krr: "kr \<in> set (keys r)" using Some by (rule root_key_in)
      have knl: "kr \<notin> set (keys l)" using krr ll rr by fastforce
      have "\<forall>x \<in> set (keys l). \<forall>y \<in> set (keys r). (x < kr \<and> x < y) \<or> (kr < x \<and> y < x)"
        using ll rr krr by fastforce
      then have "bst (graft l kr r)" using bst_graft[OF bl br knl] by simp
      then show ?thesis using eq Some nl nr inorder_graft_set[OF knl, of r] by auto
    qed
  qed
qed

lemma bst_key_unique:
  "bst t \<Longrightarrow> (k, v) \<in> set (inorder t) \<Longrightarrow> (k, v') \<in> set (inorder t) \<Longrightarrow> v = v'"
  by (induction t) (fastforce simp: keys_def)+

lemma nodes_unlink: "bst t \<Longrightarrow> k \<in> set (keys t) \<Longrightarrow> nodes (unlink t k) + 1 = nodes t"
proof (induction t)
  case Tip then show ?case by (simp add: keys_def)
next
  case (Br l a kv r)
  have bl: "bst l" and br: "bst r" and ll: "\<forall>x \<in> set (keys l). x < fst kv"
    and rr: "\<forall>x \<in> set (keys r). fst kv < x"
    using Br.prems by auto
  consider (lt) "fst kv < k" | (gt) "k < fst kv" | (eq) "fst kv = k" by fastforce
  then show ?case
  proof cases
    case lt
    then have "k \<in> set (keys r)" using Br.prems(2) ll by (auto simp: keys_def)
    then show ?thesis using lt Br.IH(2)[OF br] by simp
  next
    case gt
    then have "k \<in> set (keys l)" using Br.prems(2) rr by (auto simp: keys_def)
    moreover have "\<not> fst kv < k" using gt by simp
    ultimately show ?thesis using gt Br.IH(1)[OF bl] by simp
  next
    case eq
    show ?thesis
    proof (cases "root_key r")
      case None
      then have "r = Tip" by (rule root_key_None)
      then show ?thesis using eq None by simp
    next
      case (Some kr)
      have krr: "kr \<in> set (keys r)" using Some by (rule root_key_in)
      have knl: "kr \<notin> set (keys l)" using krr ll rr by fastforce
      show ?thesis using eq Some nodes_graft[OF knl, of r] by simp
    qed
  qed
qed

lemma atHelper_absent:
  "tree_of h p t \<Longrightarrow> k \<notin> set (keys t) \<Longrightarrow> atHelper h p k = Some (Inl KeyNotFound)"
proof (induction t arbitrary: p)
  case Tip then show ?case by (subst atHelper.simps) simp
next
  case (Br l c kv r)
  from Br.prems(1) obtain cn where cn: "p = Some c" "h c = Some cn" "payload cn = kv"
    "tree_of h (left cn) l" "tree_of h (right cn) r"
    by (rule tree_of_BrE)
  have kl: "k \<notin> set (keys l)" and kr: "k \<notin> set (keys r)" and kne: "k \<noteq> fst kv"
    using Br.prems(2) by (auto simp: keys_def)
  show ?case using cn Br.IH(1)[OF cn(4) kl] Br.IH(2)[OF cn(5) kr] kne
    by (subst atHelper.simps) (auto simp: load_def)
qed

lemma atHelper_present:
  "tree_of h p t \<Longrightarrow> bst t \<Longrightarrow> (k, v) \<in> set (inorder t) \<Longrightarrow> atHelper h p k = Some (Inr v)"
proof (induction t arbitrary: p)
  case Tip then show ?case by simp
next
  case (Br l c kv r)
  from Br.prems(1) obtain cn where cn: "p = Some c" "h c = Some cn" "payload cn = kv"
    "tree_of h (left cn) l" "tree_of h (right cn) r"
    by (rule tree_of_BrE)
  have bl: "bst l" and br: "bst r" and ll: "\<forall>x \<in> set (keys l). x < fst kv"
    and rr: "\<forall>x \<in> set (keys r). fst kv < x"
    using Br.prems(2) by auto
  consider (lt) "fst kv < k" | (gt) "k < fst kv" | (eq) "fst kv = k" by fastforce
  then show ?case
  proof cases
    case lt
    then have "(k, v) \<in> set (inorder r)" using Br.prems(3) ll by (force simp: keys_def)
    then show ?thesis using lt cn Br.IH(2)[OF cn(5) br]
      by (subst atHelper.simps) (simp add: load_def)
  next
    case gt
    then have "(k, v) \<in> set (inorder l)" using Br.prems(3) rr by (force simp: keys_def)
    moreover have "\<not> fst kv < k" using gt by simp
    ultimately show ?thesis using gt cn Br.IH(1)[OF cn(4) bl]
      by (subst atHelper.simps) (simp add: load_def)
  next
    case eq
    then have "(k, v) \<notin> set (inorder l)" "(k, v) \<notin> set (inorder r)"
      using ll rr by (force simp: keys_def)+
    then have "kv = (k, v)" using Br.prems(3) by auto
    then show ?thesis using cn by (subst atHelper.simps) (simp add: load_def)
  qed
qed

subsection \<open>Removal\<close>

lemma addrs_unlink: "set (addrs (unlink t k)) \<subseteq> set (addrs t)"
proof (induction t)
  case Tip then show ?case by simp
next
  case (Br l a kv r)
  show ?case
  proof (cases "root_key r")
    case None then show ?thesis using Br.IH by auto
  next
    case (Some kr) then show ?thesis using Br.IH addrs_graft[of l kr r] by auto
  qed
qed

lemma removeHelper_absent:
  "tree_of h p t \<Longrightarrow> k \<notin> set (keys t) \<Longrightarrow> removeHelper h p k = Some (h, Inl KeyNotFound)"
proof (induction t arbitrary: p)
  case Tip then show ?case by (subst removeHelper.simps) simp
next
  case (Br l c kv r)
  from Br.prems(1) obtain cn where cn: "p = Some c" "h c = Some cn" "payload cn = kv"
    "tree_of h (left cn) l" "tree_of h (right cn) r"
    by (rule tree_of_BrE)
  have kl: "k \<notin> set (keys l)" and kr: "k \<notin> set (keys r)" and kne: "k \<noteq> fst kv"
    using Br.prems(2) by (auto simp: keys_def)
  show ?case using cn Br.IH(1)[OF cn(4) kl] Br.IH(2)[OF cn(5) kr] kne
    by (subst removeHelper.simps) (auto simp: load_def)
qed

lemma removeHelper_present:
  assumes "tree_of h p t" "bst t" "distinct (addrs t)" "(k, v) \<in> set (inorder t)"
  shows "\<exists>h' p'. removeHelper h p k = Some (h', Inr (p', v))
           \<and> tree_of h' p' (unlink t k)
           \<and> (\<forall>a. a \<notin> set (addrs t) \<longrightarrow> h' a = h a)"
  using assms
proof (induction t arbitrary: p)
  case Tip then show ?case by simp
next
  case (Br l c kv r)
  from Br.prems(1) obtain cn where cn: "p = Some c" "h c = Some cn" "payload cn = kv"
    "tree_of h (left cn) l" "tree_of h (right cn) r"
    by (rule tree_of_BrE)
  have bl: "bst l" and br: "bst r" and ll: "\<forall>x \<in> set (keys l). x < fst kv"
    and rr: "\<forall>x \<in> set (keys r). fst kv < x"
    using Br.prems(2) by auto
  have dl: "distinct (addrs l)" and dr: "distinct (addrs r)"
    and cl: "c \<notin> set (addrs l)" and cr: "c \<notin> set (addrs r)"
    and lr: "set (addrs l) \<inter> set (addrs r) = {}"
    using Br.prems(3) by auto
  consider (lt) "fst kv < k" | (gt) "k < fst kv" | (eq) "fst kv = k" by fastforce
  then show ?case
  proof cases
    case lt
    then have "(k, v) \<in> set (inorder r)" using Br.prems(4) ll by (force simp: keys_def)
    from Br.IH(2)[OF cn(5) br dr this] obtain h1 r' where h1:
      "removeHelper h (right cn) k = Some (h1, Inr (r', v))"
      "tree_of h1 r' (unlink r k)" "\<forall>a. a \<notin> set (addrs r) \<longrightarrow> h1 a = h a"
      by blast
    let ?h2 = "h1(c \<mapsto> cn\<lparr>right := r'\<rparr>)"
    have h1c: "h1 c = Some cn" using h1(3) cr cn(2) by simp
    have run: "removeHelper h p k = Some (?h2, Inr (p, v))"
      using lt cn h1(1) h1c by (subst removeHelper.simps) (simp add: load_def store_right_def)
    have sub: "set (addrs (unlink r k)) \<subseteq> set (addrs r)" by (rule addrs_unlink)
    have tr: "tree_of ?h2 r' (unlink r k)"
      using h1(2) sub cr by (subst tree_of_upd) auto
    have "\<forall>a \<in> set (addrs l). ?h2 a = h a" using h1(3) lr cl by auto
    then have tl: "tree_of ?h2 (left cn) l"
      using cn(4) tree_of_cong[of l ?h2 h "left cn"] by simp
    have "tree_of ?h2 p (unlink (Br l c kv r) k)" using lt tr tl cn(1,3) by simp
    moreover have "\<forall>a. a \<notin> set (addrs (Br l c kv r)) \<longrightarrow> ?h2 a = h a" using h1(3) by simp
    ultimately show ?thesis using run by blast
  next
    case gt
    then have "(k, v) \<in> set (inorder l)" using Br.prems(4) rr by (force simp: keys_def)
    from Br.IH(1)[OF cn(4) bl dl this] obtain h1 l' where h1:
      "removeHelper h (left cn) k = Some (h1, Inr (l', v))"
      "tree_of h1 l' (unlink l k)" "\<forall>a. a \<notin> set (addrs l) \<longrightarrow> h1 a = h a"
      by blast
    let ?h2 = "h1(c \<mapsto> cn\<lparr>left := l'\<rparr>)"
    have nlt: "\<not> fst kv < k" using gt by simp
    have h1c: "h1 c = Some cn" using h1(3) cl cn(2) by simp
    have run: "removeHelper h p k = Some (?h2, Inr (p, v))"
      using gt nlt cn h1(1) h1c by (subst removeHelper.simps) (simp add: load_def store_left_def)
    have sub: "set (addrs (unlink l k)) \<subseteq> set (addrs l)" by (rule addrs_unlink)
    have tl: "tree_of ?h2 l' (unlink l k)"
      using h1(2) sub cl by (subst tree_of_upd) auto
    have "\<forall>a \<in> set (addrs r). ?h2 a = h a" using h1(3) lr cr by auto
    then have tr: "tree_of ?h2 (right cn) r"
      using cn(5) tree_of_cong[of r ?h2 h "right cn"] by simp
    have "tree_of ?h2 p (unlink (Br l c kv r) k)" using gt nlt tr tl cn(1,3) by simp
    moreover have "\<forall>a. a \<notin> set (addrs (Br l c kv r)) \<longrightarrow> ?h2 a = h a" using h1(3) by simp
    ultimately show ?thesis using run by blast
  next
    case eq
    then have "(k, v) \<notin> set (inorder l)" "(k, v) \<notin> set (inorder r)"
      using ll rr by (force simp: keys_def)+
    then have kv: "kv = (k, v)" using Br.prems(4) by auto
    have nlt: "\<not> fst kv < k" "\<not> k < fst kv" using eq by simp_all
    show ?thesis
    proof (cases r)
      case Tip
      then have rn: "right cn = None" using cn(5) by simp
      have run: "removeHelper h p k = Some (h(c := None), Inr (left cn, v))"
        using nlt cn rn kv by (subst removeHelper.simps) (simp add: load_def delete_def)
      have "tree_of (h(c := None)) (left cn) l"
        using cn(4) tree_of_cong[of l "h(c := None)" h "left cn"] cl by auto
      then show ?thesis using run Tip eq by auto
    next
      case (Br rl rc rkv rrt)
      from cn(5)[unfolded Br] obtain rn where rn: "right cn = Some rc" "h rc = Some rn"
        "payload rn = rkv" by (rule tree_of_BrE)
      have krr: "fst rkv \<in> set (keys r)" using Br by (simp add: keys_def)
      have knl: "fst rkv \<notin> set (keys l)" using krr ll rr by fastforce
      have "\<exists>h'. addHelper h (left cn) (Some rc) =
               Some (h', (if left cn = None then Some rc else left cn), True)
             \<and> tree_of h' (if left cn = None then Some rc else left cn) (graft l (fst rkv) r)
             \<and> (\<forall>a. a \<notin> set (addrs l) \<longrightarrow> h' a = h a)"
        using cn(4) bl dl rn(2) rn(3) knl cn(5) lr rn(1)
        by (intro addHelper_absent) auto
      then obtain h1 where h1:
        "addHelper h (left cn) (Some rc) =
               Some (h1, (if left cn = None then Some rc else left cn), True)"
        "tree_of h1 (if left cn = None then Some rc else left cn) (graft l (fst rkv) r)"
        "\<forall>a. a \<notin> set (addrs l) \<longrightarrow> h1 a = h a"
        by blast
      let ?p' = "if left cn = None then Some rc else left cn"
      have h1c: "h1 c = Some cn" using h1(3) cl cn(2) by simp
      have run: "removeHelper h p k = Some (h1(c := None), Inr (?p', v))"
        using nlt cn rn(1) kv h1(1) h1c
        by (subst removeHelper.simps) (simp add: load_def delete_def)
      have "c \<notin> set (addrs (graft l (fst rkv) r))"
        using addrs_graft[of l "fst rkv" r] cl cr by auto
      then have "tree_of (h1(c := None)) ?p' (graft l (fst rkv) r)"
        using h1(2) tree_of_cong[of "graft l (fst rkv) r" "h1(c := None)" h1 ?p'] by auto
      moreover have "unlink t0 k = graft l (fst rkv) r" if "t0 = Br l c kv r" for t0
        using that eq Br by simp
      ultimately show ?thesis using run h1(3) by auto
    qed
  qed
qed

subsection \<open>The operations of the map object\<close>

lemma tree_of_addr_live: "tree_of h p t \<Longrightarrow> h a = None \<Longrightarrow> a \<notin> set (addrs t)"
  using tree_of_live[of h p t a] by auto

lemma add_absent:
  assumes "tree_of h (root_f tm) t" "bst t" "k \<notin> set (keys t)" "h a = None"
  shows "\<exists>h'. add (Some a) k v (h, tm) =
            Some ((h', tm\<lparr>root_f := (if root_f tm = None then Some a else root_f tm),
                          size_f := size_f tm + 1\<rparr>), True)
          \<and> tree_of h' (if root_f tm = None then Some a else root_f tm)
               (graft t k (Br Tip a (k, v) Tip))"
proof -
  let ?n = "\<lparr>payload = (k, v), right = None, left = None\<rparr>"
  let ?h0 = "h(a \<mapsto> ?n)"
  have at: "a \<notin> set (addrs t)" using assms(1,4) by (rule tree_of_addr_live)
  have t0: "tree_of ?h0 (root_f tm) t" using assms(1) at by (simp add: tree_of_upd)
  have d: "distinct (addrs t)" using assms(1,2) by (rule bst_distinct_addrs)
  have "\<exists>h'. addHelper ?h0 (root_f tm) (Some a) =
           Some (h', (if root_f tm = None then Some a else root_f tm), True)
         \<and> tree_of h' (if root_f tm = None then Some a else root_f tm)
              (graft t k (Br Tip a (k, v) Tip))
         \<and> (\<forall>b. b \<notin> set (addrs t) \<longrightarrow> h' b = ?h0 b)"
    using t0 assms(2) d assms(3) at by (intro addHelper_absent[where nn = ?n]) auto
  then obtain h' where h': "addHelper ?h0 (root_f tm) (Some a) =
           Some (h', (if root_f tm = None then Some a else root_f tm), True)"
    "tree_of h' (if root_f tm = None then Some a else root_f tm)
              (graft t k (Br Tip a (k, v) Tip))"
    by blast
  show ?thesis using h' by (auto simp: add_def)
qed

lemma add_present:
  assumes "tree_of h (root_f tm) t" "bst t" "k \<in> set (keys t)" "h a = None"
  shows "add (Some a) k v (h, tm) = Some ((h, tm), False)"
proof -
  let ?n = "\<lparr>payload = (k, v), right = None, left = None\<rparr>"
  let ?h0 = "h(a \<mapsto> ?n)"
  have at: "a \<notin> set (addrs t)" using assms(1,4) by (rule tree_of_addr_live)
  have t0: "tree_of ?h0 (root_f tm) t" using assms(1) at by (simp add: tree_of_upd)
  have "addHelper ?h0 (root_f tm) (Some a) = Some (?h0(a := None), root_f tm, False)"
    using t0 assms(2,3) at by (intro addHelper_present[where nn = ?n]) auto
  moreover have "?h0(a := None) = h" using assms(4) by auto
  ultimately show ?thesis by (simp add: add_def)
qed

lemma remove_absent:
  assumes "tree_of h (root_f tm) t" "k \<notin> set (keys t)"
  shows "remove k (h, tm) = Some ((h, tm), Inl KeyNotFound)"
  using removeHelper_absent[OF assms] by (simp add: remove_def)

lemma remove_present:
  assumes "tree_of h (root_f tm) t" "bst t" "(k, v) \<in> set (inorder t)"
  shows "\<exists>h' p'. remove k (h, tm) = Some ((h', tm\<lparr>root_f := p', size_f := size_f tm - 1\<rparr>), Inr v)
          \<and> tree_of h' p' (unlink t k)"
proof -
  have d: "distinct (addrs t)" using assms(1,2) by (rule bst_distinct_addrs)
  from removeHelper_present[OF assms(1,2) d assms(3)] obtain h' p' where
    "removeHelper h (root_f tm) k = Some (h', Inr (p', v))" "tree_of h' p' (unlink t k)"
    by blast
  then show ?thesis by (auto simp: remove_def)
qed

lemma bst_graft_single:
  "bst t \<Longrightarrow> k \<notin> set (keys t) \<Longrightarrow> bst (graft t k (Br Tip a (k, v) Tip))"
  by (rule bst_graft) (force simp: keys_def)+

lemma bst_sorted: "bst t \<Longrightarrow> sorted_wrt (<) (keys t)"
  by (induction t) (fastforce simp: keys_def sorted_wrt_append)+

lemma bst_distinct_keys: "bst t \<Longrightarrow> distinct (keys t)"
  using bst_sorted strict_sorted_iff by blast

lemma nodes_length: "nodes t = length (inorder t)"
  by (induction t) auto

subsection \<open>The iterator on a tree-shaped store\<close>

lemma push_left_chain_tree:
  "tree_of h p t \<Longrightarrow> push_left_chain h p st = Some (left_spine t st)"
proof (induction t arbitrary: p st)
  case Tip then show ?case by (subst push_left_chain.simps) simp
next
  case (Br l a kv r)
  from Br.prems obtain n where n: "p = Some a" "h a = Some n" "tree_of h (left n) l"
    by (rule tree_of_BrE)
  show ?case using n(1,2) Br.IH(1)[OF n(3)] by (subst push_left_chain.simps) simp
qed

lemma operator_preinc_tree:
  assumes "toBeProcessed_f it = a # st" "h a = Some n" "tree_of h (right n) r"
  shows "operator_preinc h it = Some (it\<lparr>toBeProcessed_f := left_spine r st\<rparr>, Inr ())"
proof (cases "right n")
  case None
  then have "r = Tip" using assms(3) by (cases r) auto
  then show ?thesis using assms(1,2) None by (simp add: operator_preinc_def isLegal_def)
next
  case (Some b)
  then show ?thesis using assms(1,2) push_left_chain_tree[OF assms(3), of st]
    by (simp add: operator_preinc_def isLegal_def)
qed

lemma iterate_end: "iterate h \<lparr>toBeProcessed_f = []\<rparr> = Some (Inr [])"
  by (subst iterate.simps) (simp add: operator_neq_def TreeIterator_end_def)

lemma iterate_tree:
  "tree_of h p t \<Longrightarrow> iterate h \<lparr>toBeProcessed_f = st\<rparr> = Some (Inr xs) \<Longrightarrow>
   iterate h \<lparr>toBeProcessed_f = left_spine t st\<rparr> = Some (Inr (inorder t @ xs))"
proof (induction t arbitrary: p st xs)
  case Tip then show ?case by simp
next
  case (Br l a kv r)
  from Br.prems(1) obtain n where n: "p = Some a" "h a = Some n" "payload n = kv"
    "tree_of h (left n) l" "tree_of h (right n) r"
    by (rule tree_of_BrE)
  have r: "iterate h \<lparr>toBeProcessed_f = left_spine r st\<rparr> = Some (Inr (inorder r @ xs))"
    using Br.IH(2)[OF n(5) Br.prems(2)] .
  have step: "operator_preinc h \<lparr>toBeProcessed_f = a # st\<rparr> =
      Some (\<lparr>toBeProcessed_f = left_spine r st\<rparr>, Inr ())"
    using operator_preinc_tree[of "\<lparr>toBeProcessed_f = a # st\<rparr>" a st h n r] n(2,5) by simp
  have "iterate h \<lparr>toBeProcessed_f = a # st\<rparr> = Some (Inr (kv # inorder r @ xs))"
    using n(2,3) step r
    by (subst iterate.simps)
       (simp add: operator_neq_def TreeIterator_end_def operator_deref_def isLegal_def)
  from Br.IH(1)[OF n(4) this] show ?case by simp
qed

lemma begin_tree:
  "tree_of h (root_f tm) t \<Longrightarrow> begin_tm (h, tm) = Some \<lparr>toBeProcessed_f = left_spine t []\<rparr>"
  using push_left_chain_tree[of h "root_f tm" t "[]"]
  by (simp add: begin_tm_def TreeIterator_root_def)

lemma iterate_begin:
  "tree_of h (root_f tm) t \<Longrightarrow>
   \<exists>it. begin_tm (h, tm) = Some it \<and> iterate h it = Some (Inr (inorder t))"
  using begin_tree[of h tm t] iterate_tree[of h "root_f tm" t "[]" "[]"] iterate_end[of h]
  by simp

lemma advance_add:
  "advance h m it = Some (it1, Inr ()) \<Longrightarrow> advance h (m + n) it = advance h n it1"
proof (induction m arbitrary: it)
  case 0 then show ?case by simp
next
  case (Suc m)
  then show ?case
    by (auto split: Option.bind_splits sum.splits)
qed

lemma advance_tree:
  "tree_of h p t \<Longrightarrow>
   advance h (nodes t) \<lparr>toBeProcessed_f = left_spine t st\<rparr> = Some (\<lparr>toBeProcessed_f = st\<rparr>, Inr ())"
proof (induction t arbitrary: p st)
  case Tip then show ?case by simp
next
  case (Br l a kv r)
  from Br.prems(1) obtain n where n: "p = Some a" "h a = Some n" "payload n = kv"
    "tree_of h (left n) l" "tree_of h (right n) r"
    by (rule tree_of_BrE)
  have step: "operator_preinc h \<lparr>toBeProcessed_f = a # st\<rparr> =
      Some (\<lparr>toBeProcessed_f = left_spine r st\<rparr>, Inr ())"
    using operator_preinc_tree[of "\<lparr>toBeProcessed_f = a # st\<rparr>" a st h n r] n(2,5) by simp
  have "advance h (Suc (nodes r)) \<lparr>toBeProcessed_f = a # st\<rparr> = Some (\<lparr>toBeProcessed_f = st\<rparr>, Inr ())"
    using step Br.IH(2)[OF n(5), of st] by simp
  then show ?case
    using advance_add[OF Br.IH(1)[OF n(4), of "a # st"], of "Suc (nodes r)"] by simp
qed

lemma stack_of_spine:
  "tree_of h p t \<Longrightarrow> stack_of h st rs \<Longrightarrow> stack_of h (left_spine t st) (spine_rights t rs)"
proof (induction t arbitrary: p st rs)
  case Tip then show ?case by simp
next
  case (Br l a kv r)
  from Br.prems(1) obtain n where n: "p = Some a" "h a = Some n"
    "tree_of h (left n) l" "tree_of h (right n) r"
    by (rule tree_of_BrE)
  have "stack_of h (a # st) (r # rs)" using n(2,4) Br.prems(2) by simp
  from Br.IH(1)[OF n(3) this] show ?case by simp
qed

lemma remaining_spine: "remaining (spine_rights t rs) = nodes t + remaining rs"
  by (induction t arbitrary: rs) auto

lemma advance_valid:
  "stack_of h st rs \<Longrightarrow> n \<le> remaining rs \<Longrightarrow>
   \<exists>st' rs'. advance h n \<lparr>toBeProcessed_f = st\<rparr> = Some (\<lparr>toBeProcessed_f = st'\<rparr>, Inr ())
      \<and> stack_of h st' rs' \<and> remaining rs' + n = remaining rs"
proof (induction n arbitrary: st rs)
  case 0 then show ?case by auto
next
  case (Suc n)
  from Suc.prems(2) obtain r rs0 where rs: "rs = r # rs0" by (cases rs) auto
  with Suc.prems(1) obtain a st0 where st: "st = a # st0" by (cases st) auto
  from Suc.prems(1) rs st obtain nd where nd: "h a = Some nd" "tree_of h (right nd) r"
    "stack_of h st0 rs0"
    by (auto split: option.splits)
  have step: "operator_preinc h \<lparr>toBeProcessed_f = st\<rparr> =
      Some (\<lparr>toBeProcessed_f = left_spine r st0\<rparr>, Inr ())"
    using operator_preinc_tree[of "\<lparr>toBeProcessed_f = st\<rparr>" a st0 h nd r] st nd(1,2) by simp
  have v: "stack_of h (left_spine r st0) (spine_rights r rs0)"
    using nd(2,3) by (rule stack_of_spine)
  have le: "n \<le> remaining (spine_rights r rs0)"
    using Suc.prems(2) rs by (simp add: remaining_spine)
  from Suc.IH[OF v le] obtain st' rs' where r':
    "advance h n \<lparr>toBeProcessed_f = left_spine r st0\<rparr> = Some (\<lparr>toBeProcessed_f = st'\<rparr>, Inr ())"
    "stack_of h st' rs'" "remaining rs' + n = remaining (spine_rights r rs0)"
    by blast
  have "remaining rs' + Suc n = remaining rs" using r'(3) rs by (simp add: remaining_spine)
  then show ?case using step r'(1,2) by auto
qed

lemma remaining_0: "stack_of h st rs \<Longrightarrow> remaining rs = 0 \<Longrightarrow> st = []"
  by (cases st; cases rs) auto

lemma advance_begin:
  assumes "tree_of h (root_f tm) t" "n \<le> nodes t"
  shows "\<exists>b e. begin_tm (h, tm) = Some b \<and> advance h n b = Some (e, Inr ())
          \<and> (n = nodes t \<longrightarrow> e = TreeIterator_end) \<and> (n < nodes t \<longrightarrow> isLegal e)"
proof -
  have b: "begin_tm (h, tm) = Some \<lparr>toBeProcessed_f = left_spine t []\<rparr>"
    using assms(1) by (rule begin_tree)
  have v: "stack_of h (left_spine t []) (spine_rights t [])"
    using assms(1) by (rule stack_of_spine) simp
  have le: "n \<le> remaining (spine_rights t [])" using assms(2) by (simp add: remaining_spine)
  from advance_valid[OF v le] obtain st' rs' where r:
    "advance h n \<lparr>toBeProcessed_f = left_spine t []\<rparr> = Some (\<lparr>toBeProcessed_f = st'\<rparr>, Inr ())"
    "stack_of h st' rs'" "remaining rs' + n = nodes t"
    by (auto simp: remaining_spine)
  have "st' = []" if "n = nodes t" using remaining_0[OF r(2)] r(3) that by simp
  moreover have "st' \<noteq> []" if "n < nodes t"
  proof
    assume "st' = []"
    then have "rs' = []" using r(2) by simp
    then show False using r(3) that by simp
  qed
  ultimately show ?thesis using b r(1) by (auto simp: TreeIterator_end_def isLegal_def)
qed

subsection \<open>The map of the spec's scenario\<close>

text \<open>
  The example store is the state that the calls \<open>ex_adds\<close> reach from the empty map;
  iteration and \<^verbatim>\<open>remove(5)\<close> on it give what the spec's scenario says.
\<close>

lemma ex_reachable:
  "add_all ex_adds (Map.empty, TreeMap_ctor) = Some ((ex_heap, ex_tm), [True, True, False, True])"
proof -
  let ?n1 = "\<lparr>payload = (5 :: int, CHR ''a''), right = None, left = None\<rparr>"
  let ?n2 = "\<lparr>payload = (3 :: int, CHR ''b''), right = None, left = None\<rparr>"
  let ?n3 = "\<lparr>payload = (8 :: int, CHR ''c''), right = None, left = None\<rparr>"
  let ?h1 = "[1 \<mapsto> ?n1]"
  let ?h2 = "[1 \<mapsto> ?n1\<lparr>left := Some 2\<rparr>, 2 \<mapsto> ?n2]"
  have a1: "add (Some 1) 5 (CHR ''a'') (Map.empty, TreeMap_ctor) =
      Some ((?h1, \<lparr>size_f = 1, root_f = Some 1\<rparr>), True)"
    by (simp add: add_def TreeMap_ctor_def addHelper.simps)
  have a2: "add (Some 2) 3 (CHR ''b'') (?h1, \<lparr>size_f = 1, root_f = Some 1\<rparr>) =
      Some ((?h2, \<lparr>size_f = 2, root_f = Some 1\<rparr>), True)"
    by (simp add: add_def addHelper.simps load_def store_left_def fun_upd_twist)
  have a3: "add None 9 (CHR ''x'') (?h2, \<lparr>size_f = 2, root_f = Some 1\<rparr>) =
      Some ((?h2, \<lparr>size_f = 2, root_f = Some 1\<rparr>), False)"
    by (simp add: add_def)
  have a4: "add (Some 3) 8 (CHR ''c'') (?h2, \<lparr>size_f = 2, root_f = Some 1\<rparr>) =
      Some ((ex_heap, ex_tm), True)"
    by (auto simp: add_def addHelper.simps load_def store_right_def ex_heap_def ex_tm_def fun_eq_iff)
  show ?thesis using a1 a2 a3 a4 by (simp add: ex_adds_def)
qed

lemma spec_scenario:
  "(\<exists>it. begin_tm (ex_heap, ex_tm) = Some it
      \<and> iterate ex_heap it = Some (Inr [(3, CHR ''b''), (5, CHR ''a''), (8, CHR ''c'')]))
   \<and> remove 5 (ex_heap, ex_tm) =
       Some (([2 \<mapsto> \<lparr>payload = (3, CHR ''b''), right = Some 3, left = None\<rparr>,
               3 \<mapsto> \<lparr>payload = (8, CHR ''c''), right = None, left = None\<rparr>],
              \<lparr>size_f = 2, root_f = Some 2\<rparr>), Inr (CHR ''a''))"
proof -
  have t: "tree_of ex_heap (root_f ex_tm) ex_tree"
    by (simp add: ex_heap_def ex_tm_def ex_tree_def)
  have 1: "\<exists>it. begin_tm (ex_heap, ex_tm) = Some it
      \<and> iterate ex_heap it = Some (Inr [(3, CHR ''b''), (5, CHR ''a''), (8, CHR ''c'')])"
    using iterate_begin[OF t] by (simp add: ex_tree_def)
  have 2: "remove 5 (ex_heap, ex_tm) =
       Some (([2 \<mapsto> \<lparr>payload = (3, CHR ''b''), right = Some 3, left = None\<rparr>,
               3 \<mapsto> \<lparr>payload = (8, CHR ''c''), right = None, left = None\<rparr>],
              \<lparr>size_f = 2, root_f = Some 2\<rparr>), Inr (CHR ''a''))"
    by (auto simp: remove_def removeHelper.simps addHelper.simps load_def store_right_def
        delete_def ex_heap_def ex_tm_def fun_eq_iff)
  show ?thesis using 1 2 by blast
qed

subsection \<open>The map object and its invariant\<close>

lemma inv_tree: "TreeMap_inv (h, tm) t \<Longrightarrow> tree_of h (root_f tm) t"
  by (simp add: TreeMap_inv_def)

lemma inv_bst: "TreeMap_inv (h, tm) t \<Longrightarrow> bst t"
  by (simp add: TreeMap_inv_def)

lemma inv_size: "TreeMap_inv (h, tm) t \<Longrightarrow> unat (size_f tm) = nodes t"
  by (simp add: TreeMap_inv_def)

text \<open>No node is shared in an ordered tree, so \<open>nodes t\<close> counts the reachable nodes.\<close>

lemma nodes_addrs: "nodes t = length (addrs t)"
  by (induction t) auto

lemma inv_count:
  "TreeMap_inv (h, tm) t \<Longrightarrow> unat (size_f tm) = card (set (addrs t))"
  using bst_distinct_addrs[of h "root_f tm" t]
  by (simp add: TreeMap_inv_def nodes_addrs distinct_card)

lemma at_present:
  "TreeMap_inv (h, tm) t \<Longrightarrow> (k, v) \<in> set (inorder t) \<Longrightarrow> at k (h, tm) = Some (Inr v)"
  using atHelper_present[of h "root_f tm" t k v] by (simp add: at_def TreeMap_inv_def)

lemma at_absent:
  "tree_of h (root_f tm) t \<Longrightarrow> k \<notin> set (keys t) \<Longrightarrow> at k (h, tm) = Some (Inl KeyNotFound)"
  by (simp add: at_def atHelper_absent)

lemma key_has_value: "k \<in> set (keys t) \<Longrightarrow> \<exists>v. (k, v) \<in> set (inorder t)"
  by (auto simp: keys_def)

lemma value_has_key: "(k, v) \<in> set (inorder t) \<Longrightarrow> k \<in> set (keys t)"
  by (force simp: keys_def)

lemma at_iff:
  assumes "TreeMap_inv (h, tm) t"
  shows "at k (h, tm) = Some (Inr v) \<longleftrightarrow> (k, v) \<in> set (inorder t)"
proof
  assume a: "at k (h, tm) = Some (Inr v)"
  have "k \<in> set (keys t)"
    using at_absent[OF inv_tree[OF assms], of k] a by auto
  then obtain v' where v': "(k, v') \<in> set (inorder t)" using key_has_value by fastforce
  from at_present[OF assms v'] a show "(k, v) \<in> set (inorder t)" using v' by simp
qed (rule at_present[OF assms])

lemma add_absent_inv:
  assumes "tree_of h (root_f tm) t" "bst t" "k \<notin> set (keys t)" "h a = None"
  shows "\<exists>h' tm' t'. add (Some a) k v (h, tm) = Some ((h', tm'), True)
           \<and> tree_of h' (root_f tm') t' \<and> bst t'
           \<and> set (inorder t') = insert (k, v) (set (inorder t))
           \<and> nodes t' = nodes t + 1
           \<and> size_f tm' = size_f tm + 1"
proof -
  note tr = assms(1) and b = assms(2)
  let ?p = "if root_f tm = None then Some a else root_f tm"
  let ?t = "graft t k (Br Tip a (k, v) Tip)"
  from add_absent[OF tr b assms(3,4), of v] obtain h' where h':
    "add (Some a) k v (h, tm) = Some ((h', tm\<lparr>root_f := ?p, size_f := size_f tm + 1\<rparr>), True)"
    "tree_of h' ?p ?t"
    by blast
  have "bst ?t" using b assms(3) by (rule bst_graft_single)
  moreover have "set (inorder ?t) = insert (k, v) (set (inorder t))"
    using inorder_graft_set[OF assms(3), of "Br Tip a (k, v) Tip"] by simp
  moreover have "nodes ?t = nodes t + 1"
    using nodes_graft[OF assms(3), of "Br Tip a (k, v) Tip"] by simp
  ultimately show ?thesis using h' by auto
qed

lemma add_absent_frame:
  assumes "tree_of h (root_f tm) t" "bst t" "k \<notin> set (keys t)" "h a = None"
    "add (Some a) k v (h, tm) = Some ((h', tm'), b)" "h c = None" "c \<noteq> a"
  shows "h' c = None"
proof -
  let ?n = "\<lparr>payload = (k, v), right = None, left = None\<rparr>"
  let ?h0 = "h(a \<mapsto> ?n)"
  have at: "a \<notin> set (addrs t)" using assms(1,4) by (rule tree_of_addr_live)
  have ct: "c \<notin> set (addrs t)" using assms(1,6) by (rule tree_of_addr_live)
  have t0: "tree_of ?h0 (root_f tm) t" using assms(1) at by (simp add: tree_of_upd)
  have d: "distinct (addrs t)" using assms(1,2) by (rule bst_distinct_addrs)
  have "\<exists>h'. addHelper ?h0 (root_f tm) (Some a) =
           Some (h', (if root_f tm = None then Some a else root_f tm), True)
         \<and> tree_of h' (if root_f tm = None then Some a else root_f tm)
              (graft t k (Br Tip a (k, v) Tip))
         \<and> (\<forall>b. b \<notin> set (addrs t) \<longrightarrow> h' b = ?h0 b)"
    using t0 assms(2) d assms(3) at by (intro addHelper_absent[where nn = ?n]) auto
  then obtain h1 where h1: "addHelper ?h0 (root_f tm) (Some a) =
           Some (h1, (if root_f tm = None then Some a else root_f tm), True)"
    "\<forall>b. b \<notin> set (addrs t) \<longrightarrow> h1 b = ?h0 b"
    by blast
  have "h' = h1" using assms(5) h1(1) by (auto simp: add_def)
  then show ?thesis using h1(2) ct assms(6,7) by simp
qed

lemma add_all_fresh:
  assumes "tree_of h (root_f tm) t" "bst t" "distinct (map (fst \<circ> snd) xs)"
    "set (map (fst \<circ> snd) xs) \<inter> set (keys t) = {}"
    "distinct (allocated xs)" "\<forall>a \<in> set (allocated xs). h a = None"
  shows "\<exists>h' tm' t'. add_all xs (h, tm) = Some ((h', tm'), map (\<lambda>x. fst x \<noteq> None) xs)
           \<and> tree_of h' (root_f tm') t' \<and> bst t'
           \<and> set (keys t') =
               set (keys t) \<union> set (map (fst \<circ> snd) (filter (\<lambda>x. fst x \<noteq> None) xs))"
  using assms
proof (induction xs arbitrary: h tm t)
  case Nil
  then show ?case by auto
next
  case (Cons x xs)
  obtain alloc k v where x: "x = (alloc, k, v)" by (cases x) auto
  note tr = Cons.prems(1) and b = Cons.prems(2)
  have dk: "distinct (map (fst \<circ> snd) xs)" using Cons.prems(3) by (simp add: comp_def)
  show ?case
  proof (cases alloc)
    case None
    have run: "add alloc k v (h, tm) = Some ((h, tm), False)" using None by (simp add: add_def)
    have "\<exists>h' tm' t'. add_all xs (h, tm) = Some ((h', tm'), map (\<lambda>x. fst x \<noteq> None) xs)
           \<and> tree_of h' (root_f tm') t' \<and> bst t'
           \<and> set (keys t') =
               set (keys t) \<union> set (map (fst \<circ> snd) (filter (\<lambda>x. fst x \<noteq> None) xs))"
      using tr b dk Cons.prems(4,5,6) x None by (intro Cons.IH) (auto simp: comp_def)
    then show ?thesis using run x None by auto
  next
    case (Some a)
    have kn: "k \<notin> set (keys t)" and fa: "h a = None" using Cons.prems(4,6) x Some by auto
    from add_absent_inv[OF tr b kn fa, of v] obtain h1 tm1 t1 where r:
      "add (Some a) k v (h, tm) = Some ((h1, tm1), True)"
      "tree_of h1 (root_f tm1) t1" "bst t1"
      "set (inorder t1) = insert (k, v) (set (inorder t))"
      by blast
    have k1: "set (keys t1) = insert k (set (keys t))" using r(4) by (auto simp: keys_def)
    have fr: "\<forall>c \<in> set (allocated xs). h1 c = None"
    proof
      fix c assume c: "c \<in> set (allocated xs)"
      then have "h c = None" "c \<noteq> a" using Cons.prems(5,6) x Some by auto
      with add_absent_frame[OF tr b kn fa r(1)] show "h1 c = None" by simp
    qed
    have "\<exists>h' tm' t'. add_all xs (h1, tm1) = Some ((h', tm'), map (\<lambda>x. fst x \<noteq> None) xs)
           \<and> tree_of h' (root_f tm') t' \<and> bst t'
           \<and> set (keys t') =
               set (keys t1) \<union> set (map (fst \<circ> snd) (filter (\<lambda>x. fst x \<noteq> None) xs))"
      using r(2,3) dk Cons.prems(3,4,5) fr k1 x Some by (intro Cons.IH) (auto simp: comp_def)
    then show ?thesis using r(1) k1 x Some by auto
  qed
qed

subsection \<open>The store of a shape\<close>

lemma root_ptr_eq: "tree_of h p t \<Longrightarrow> p = root_ptr t"
  by (cases t) auto

lemma tree_of_BrI:
  "h a = Some \<lparr>payload = kv, right = pr, left = pl\<rparr> \<Longrightarrow> tree_of h pl l \<Longrightarrow> tree_of h pr r
   \<Longrightarrow> tree_of h (Some a) (Br l a kv r)"
  by simp

lemma root_ptr_graft: "t \<noteq> Tip \<Longrightarrow> root_ptr (graft t k s) = root_ptr t"
  by (cases t) auto

lemma heap_of_None: "a \<notin> set (addrs t) \<Longrightarrow> heap_of t a = None"
  by (induction t) (auto simp: map_add_def)

lemma heap_of_Some: "heap_of t a = Some n \<Longrightarrow> a \<in> set (addrs t)"
  using heap_of_None[of a t] by auto

lemma tree_of_heap_of: "distinct (addrs t) \<Longrightarrow> tree_of (heap_of t) (root_ptr t) t"
proof (induction t)
  case Tip then show ?case by simp
next
  case (Br l a kv r)
  let ?h = "heap_of (Br l a kv r)"
  have dl: "distinct (addrs l)" and dr: "distinct (addrs r)" using Br.prems by auto
  have "\<forall>b \<in> set (addrs l). ?h b = heap_of l b"
    using Br.prems by (auto simp: map_add_def heap_of_None dest: heap_of_Some split: option.splits)
  then have l: "tree_of ?h (root_ptr l) l"
    using Br.IH(1)[OF dl] tree_of_cong[of l ?h "heap_of l" "root_ptr l"] by simp
  have "\<forall>b \<in> set (addrs r). ?h b = heap_of r b"
    using Br.prems by (auto simp: map_add_def split: option.splits intro!: heap_of_None)
  then have r: "tree_of ?h (root_ptr r) r"
    using Br.IH(2)[OF dr] tree_of_cong[of r ?h "heap_of r" "root_ptr r"] by simp
  have "?h a = Some \<lparr>payload = kv, right = root_ptr r, left = root_ptr l\<rparr>" by simp
  then show ?case unfolding root_ptr.simps using l r by (rule tree_of_BrI)
qed

lemma tree_of_heap_eq:
  "tree_of h p t \<Longrightarrow> distinct (addrs t) \<Longrightarrow> b \<in> set (addrs t) \<Longrightarrow> h b = heap_of t b"
proof (induction t arbitrary: p)
  case Tip then show ?case by simp
next
  case (Br l a kv r)
  from Br.prems(1) obtain n where n: "h a = Some n" "payload n = kv"
    "tree_of h (left n) l" "tree_of h (right n) r"
    by (auto split: option.splits)
  have nn: "n = \<lparr>payload = kv, right = root_ptr r, left = root_ptr l\<rparr>"
    using n(2) root_ptr_eq[OF n(3)] root_ptr_eq[OF n(4)] by (cases n) simp
  have dl: "distinct (addrs l)" and dr: "distinct (addrs r)" using Br.prems(2) by auto
  consider "b = a" | "b \<noteq> a" "b \<in> set (addrs l)" | "b \<noteq> a" "b \<in> set (addrs r)"
    using Br.prems(3) by auto
  then show ?case
  proof cases
    case 1 then show ?thesis using n(1) nn by simp
  next
    case 2
    then have "b \<notin> set (addrs r)" using Br.prems(2) by auto
    then have "heap_of r b = None" by (rule heap_of_None)
    then show ?thesis using 2 Br.IH(1)[OF n(3) dl] by (simp add: map_add_def)
  next
    case 3
    then have "b \<notin> set (addrs l)" using Br.prems(2) by auto
    then have "heap_of l b = None" by (rule heap_of_None)
    then show ?thesis using 3 Br.IH(2)[OF n(4) dr]
      by (simp add: map_add_def split: option.splits)
  qed
qed

lemma heap_of_eq:
  assumes "tree_of h p t" "distinct (addrs t)" "\<forall>b. b \<notin> set (addrs t) \<longrightarrow> h b = None"
  shows "h = heap_of t"
proof
  fix b show "h b = heap_of t b"
  proof (cases "b \<in> set (addrs t)")
    case True with assms(1,2) show ?thesis by (rule tree_of_heap_eq)
  next
    case False then show ?thesis using assms(3) by (simp add: heap_of_None)
  qed
qed

lemma addrs_graft_single:
  "k \<notin> set (keys t) \<Longrightarrow> set (addrs (graft t k (Br Tip a kv Tip))) = insert a (set (addrs t))"
  by (induction t) (auto simp: keys_def)

lemma add_heap_of:
  assumes "bst t" "distinct (addrs t)" "k \<notin> set (keys t)" "a \<notin> set (addrs t)"
  shows "add (Some a) k v (heap_of t, tm_of t) =
           Some ((heap_of (graft t k (Br Tip a (k, v) Tip)),
                  tm_of (graft t k (Br Tip a (k, v) Tip))), True)"
proof -
  let ?t = "graft t k (Br Tip a (k, v) Tip)"
  let ?p = "if root_f (tm_of t) = None then Some a else root_f (tm_of t)"
  have tr: "tree_of (heap_of t) (root_f (tm_of t)) t"
    using tree_of_heap_of[OF assms(2)] by (simp add: tm_of_def)
  have fa: "heap_of t a = None" using assms(4) by (rule heap_of_None)
  from add_absent[OF tr assms(1,3) fa, of v] obtain h' where h':
    "add (Some a) k v (heap_of t, tm_of t) =
       Some ((h', (tm_of t)\<lparr>root_f := ?p, size_f := size_f (tm_of t) + 1\<rparr>), True)"
    "tree_of h' ?p ?t"
    by blast
  have b: "bst ?t" using assms(1,3) by (rule bst_graft_single)
  have d: "distinct (addrs ?t)" using h'(2) b by (rule bst_distinct_addrs)
  have as: "set (addrs ?t) = insert a (set (addrs t))" using assms(3) by (rule addrs_graft_single)
  have fr: "\<forall>c. c \<notin> set (addrs ?t) \<longrightarrow> h' c = None"
  proof (intro allI impI)
    fix c assume "c \<notin> set (addrs ?t)"
    then have c: "c \<noteq> a" "c \<notin> set (addrs t)" using as by auto
    have "heap_of t c = None" using c(2) by (rule heap_of_None)
    with add_absent_frame[OF tr assms(1,3) fa h'(1)] c(1) show "h' c = None" by simp
  qed
  have he: "h' = heap_of ?t" using h'(2) d fr by (rule heap_of_eq)
  have p: "?p = root_ptr ?t" using h'(2) by (rule root_ptr_eq)
  have n: "nodes ?t = nodes t + 1" using nodes_graft[OF assms(3), of "Br Tip a (k, v) Tip"] by simp
  have "(tm_of t)\<lparr>root_f := ?p, size_f := size_f (tm_of t) + 1\<rparr> = tm_of ?t"
    unfolding p by (simp add: tm_of_def n)
  then show ?thesis using h'(1) he by simp
qed

lemma graft_all_Some:
  "graft_all ((Some a, kv) # xs) t = graft_all xs (graft t (fst kv) (Br Tip a kv Tip))"
  by (cases kv) simp

lemma graft_all_append: "graft_all (xs @ ys) t = graft_all ys (graft_all xs t)"
  by (induction xs t rule: graft_all.induct) (auto split: option.splits)

lemma graft_all_left:
  "\<forall>x \<in> set xs. fst (snd x) < fst kv \<Longrightarrow>
   graft_all xs (Br l a kv r) = Br (graft_all xs l) a kv r"
  by (induction xs l rule: graft_all.induct) (auto split: option.splits)

lemma graft_all_right:
  "\<forall>x \<in> set xs. fst kv < fst (snd x) \<Longrightarrow>
   graft_all xs (Br l a kv r) = Br l a kv (graft_all xs r)"
  by (induction xs r rule: graft_all.induct) (auto split: option.splits)

lemma preorder_keys: "set (map (fst \<circ> snd) (preorder t)) = set (keys t)"
  by (induction t) (auto simp: keys_def)

lemma graft_all_preorder: "bst t \<Longrightarrow> graft_all (preorder t) Tip = t"
proof (induction t)
  case Tip then show ?case by simp
next
  case (Br l a kv r)
  have l: "\<forall>x \<in> set (preorder l). fst (snd x) < fst kv"
    using Br.prems preorder_keys[of l] by auto
  have r: "\<forall>x \<in> set (preorder r). fst kv < fst (snd x)"
    using Br.prems preorder_keys[of r] by auto
  have "graft_all (preorder (Br l a kv r)) Tip
      = graft_all (preorder r) (graft_all (preorder l) (Br Tip a kv Tip))"
    by (simp add: graft_all_append graft_all_Some del: graft_all.simps)
  also have "\<dots> = graft_all (preorder r) (Br l a kv Tip)"
    using graft_all_left[OF l] Br.IH(1) Br.prems by simp
  also have "\<dots> = Br l a kv r"
    using graft_all_right[OF r] Br.IH(2) Br.prems by simp
  finally show ?case .
qed

lemma add_all_heap_of:
  assumes "bst t" "distinct (addrs t)" "distinct (map (fst \<circ> snd) xs)"
    "set (map (fst \<circ> snd) xs) \<inter> set (keys t) = {}"
    "map fst xs = map Some (allocated xs)"
    "distinct (allocated xs)" "set (allocated xs) \<inter> set (addrs t) = {}"
  shows "add_all xs (heap_of t, tm_of t) =
           Some ((heap_of (graft_all xs t), tm_of (graft_all xs t)), replicate (length xs) True)"
  using assms
proof (induction xs arbitrary: t)
  case Nil then show ?case by simp
next
  case (Cons x xs)
  obtain alloc k v where x: "x = (alloc, k, v)" by (cases x) auto
  from Cons.prems(5) x obtain a where a: "alloc = Some a"
    by (cases alloc) auto
  let ?t = "graft t k (Br Tip a (k, v) Tip)"
  have kn: "k \<notin> set (keys t)" using Cons.prems(4) x by auto
  have an: "a \<notin> set (addrs t)" using Cons.prems(7) x a by auto
  have step: "add (Some a) k v (heap_of t, tm_of t) = Some ((heap_of ?t, tm_of ?t), True)"
    using Cons.prems(1,2) kn an by (rule add_heap_of)
  have b: "bst ?t" using Cons.prems(1) kn by (rule bst_graft_single)
  have as: "set (addrs ?t) = insert a (set (addrs t))" using kn by (rule addrs_graft_single)
  have "length (addrs ?t) = Suc (length (addrs t))"
    using nodes_graft[OF kn, of "Br Tip a (k, v) Tip"] by (simp add: nodes_addrs)
  then have d: "distinct (addrs ?t)"
    using as an Cons.prems(2) by (simp add: card_distinct distinct_card)
  have ks: "set (keys ?t) = insert k (set (keys t))"
    using keys_graft_set[OF kn, of "Br Tip a (k, v) Tip"] by (simp add: keys_def)
  have "add_all xs (heap_of ?t, tm_of ?t) =
           Some ((heap_of (graft_all xs ?t), tm_of (graft_all xs ?t)), replicate (length xs) True)"
    using b d Cons.prems(3,4,5,6,7) x a ks as by (intro Cons.IH) (auto simp: comp_def)
  then show ?case using step x a by simp
qed

lemma allocated_append: "allocated (xs @ ys) = allocated xs @ allocated ys"
  by (induction xs rule: allocated.induct) (auto split: option.splits)

lemma preorder_allocs: "map fst (preorder t) = map Some (allocated (preorder t))"
  by (induction t) (auto simp: allocated_append)

lemma allocated_preorder: "set (allocated (preorder t)) = set (addrs t)"
  by (induction t) (auto simp: allocated_append)

lemma distinct_allocated_preorder:
  "distinct (addrs t) \<Longrightarrow> distinct (allocated (preorder t))"
  by (induction t) (auto simp: allocated_append allocated_preorder)

lemma distinct_preorder_keys:
  "distinct (keys t) \<Longrightarrow> distinct (map (fst \<circ> snd) (preorder t))"
proof (induction t)
  case Tip then show ?case by simp
next
  case (Br l a kv r)
  have l: "set (map (fst \<circ> snd) (preorder l)) = set (keys l)" by (rule preorder_keys)
  have r: "set (map (fst \<circ> snd) (preorder r)) = set (keys r)" by (rule preorder_keys)
  have "distinct (keys l)" "distinct (keys r)" "fst kv \<notin> set (keys l)" "fst kv \<notin> set (keys r)"
    "set (keys l) \<inter> set (keys r) = {}"
    using Br.prems by (auto simp: keys_def)
  then show ?case using Br.IH l r by simp
qed

lemma length_preorder: "length (preorder t) = nodes t"
  by (induction t) auto

lemma preorder_reachable:
  fixes t :: "('k::linorder, 'v) tree"
  assumes "bst t" "distinct (addrs t)"
  shows "add_all (preorder t) (Map.empty, TreeMap_ctor) =
           Some ((heap_of t, tm_of t), replicate (nodes t) True)"
proof -
  have 1: "bst (Tip :: ('k, 'v) tree)" by simp
  have 2: "distinct (addrs (Tip :: ('k, 'v) tree))" by simp
  have 3: "distinct (map (fst \<circ> snd) (preorder t))"
    using bst_distinct_keys[OF assms(1)] by (rule distinct_preorder_keys)
  have 4: "set (map (fst \<circ> snd) (preorder t)) \<inter> set (keys (Tip :: ('k, 'v) tree)) = {}"
    by (simp add: keys_def)
  have 5: "distinct (allocated (preorder t))"
    using assms(2) by (rule distinct_allocated_preorder)
  have 6: "set (allocated (preorder t)) \<inter> set (addrs (Tip :: ('k, 'v) tree)) = {}" by simp
  have "add_all (preorder t) (heap_of Tip, tm_of (Tip :: ('k, 'v) tree)) =
           Some ((heap_of (graft_all (preorder t) Tip), tm_of (graft_all (preorder t) Tip)),
                 replicate (length (preorder t)) True)"
    using 1 2 3 4 preorder_allocs[of t] 5 6 by (rule add_all_heap_of)
  then show ?thesis
    using graft_all_preorder[OF assms(1)]
    by (simp add: length_preorder tm_of_def TreeMap_ctor_def)
qed


subsection \<open>The map with 4294967295 keys\<close>

lemma perfect_keys: "k \<in> set (keys (perfect lo d)) \<longleftrightarrow> lo < k \<and> k < lo + 2 ^ d"
proof (induction d arbitrary: lo)
  case 0 then show ?case by (simp add: keys_def)
next
  case (Suc d)
  define m where "m = (2::nat) ^ d"
  have m: "0 < m" by (simp add: m_def)
  have l: "k \<in> set (keys (perfect lo d)) \<longleftrightarrow> lo < k \<and> k < lo + m"
    unfolding m_def by (rule Suc.IH)
  have r: "k \<in> set (keys (perfect (lo + m) d)) \<longleftrightarrow> lo + m < k \<and> k < lo + m + m"
    unfolding m_def by (rule Suc.IH)
  have "k \<in> set (keys (perfect lo (Suc d))) \<longleftrightarrow>
      k \<in> set (keys (perfect lo d)) \<or> k = lo + m \<or> k \<in> set (keys (perfect (lo + m) d))"
    by (auto simp: keys_def m_def)
  also have "\<dots> \<longleftrightarrow> lo < k \<and> k < lo + m + m" unfolding l r using m by arith
  also have "lo + m + m = lo + 2 ^ Suc d" by (simp add: m_def)
  finally show ?case .
qed

lemma perfect_bst: "bst (perfect lo d)"
  by (induction d arbitrary: lo) (simp_all add: perfect_keys)

lemma perfect_addrs: "addrs (perfect lo d) = keys (perfect lo d)"
  by (induction d arbitrary: lo) (auto simp: keys_def)

lemma perfect_nodes: "Suc (nodes (perfect lo d)) = 2 ^ d"
  by (induction d arbitrary: lo) auto

lemma perfect_height: "height (perfect lo d) = d"
  by (induction d arbitrary: lo) auto

lemma perfect_root: "root_ptr (perfect lo (Suc d)) = Some (lo + 2 ^ d)"
  by simp

lemma full_nodes: "nodes full_tree = 4294967295"
  using perfect_nodes[of 0 32] by (simp add: full_tree_def)

lemma full_root: "root_ptr full_tree = Some 2147483648"
proof -
  have "(32::nat) = Suc 31" by simp
  then have "root_ptr (perfect 0 32) = root_ptr (perfect 0 (Suc 31))" by (rule arg_cong)
  then show ?thesis unfolding full_tree_def perfect_root by simp
qed

lemma tm_of_full: "tm_of full_tree = full_tm"
  by (simp add: tm_of_def full_tm_def full_nodes full_root)

lemma full_bst: "bst full_tree"
  unfolding full_tree_def by (rule perfect_bst)

lemma full_distinct: "distinct (addrs full_tree)"
  unfolding full_tree_def perfect_addrs using perfect_bst by (rule bst_distinct_keys)

lemma full_keys: "4294967296 \<notin> set (keys full_tree)"
  by (simp add: full_tree_def perfect_keys)

lemma full_addrs: "4294967296 \<notin> set (addrs full_tree)"
  using full_keys by (simp add: full_tree_def perfect_addrs)


lemma full_reachable:
  "add_all full_adds (Map.empty, TreeMap_ctor) =
     Some ((full_heap, full_tm), replicate 4294967295 True)"
  using preorder_reachable[OF full_bst full_distinct]
  by (simp add: tm_of_full full_heap_def full_nodes full_adds_def)

lemma full_inv: "TreeMap_inv (full_heap, full_tm) full_tree"
  using tree_of_heap_of[OF full_distinct] full_bst full_nodes full_root
  by (simp add: TreeMap_inv_def full_heap_def full_tm_def)

lemma full_height: "height full_tree = 32"
  unfolding full_tree_def by (rule perfect_height)

lemma full_free: "full_heap 4294967296 = None"
  unfolding full_heap_def using full_addrs by (rule heap_of_None)

lemma over_nodes: "nodes over_tree = 4294967296"
  unfolding over_tree_def using nodes_graft[OF full_keys] full_nodes by simp

lemma over_root: "root_ptr over_tree = Some 2147483648"
proof -
  have "full_tree \<noteq> Tip" using full_root by auto
  then show ?thesis unfolding over_tree_def using full_root by (simp add: root_ptr_graft)
qed

lemma over_bst: "bst over_tree"
  unfolding over_tree_def using full_bst full_keys by (rule bst_graft_single)

lemma full_add:
  "add (Some 4294967296) 4294967296 0 (full_heap, full_tm) = Some ((over_heap, over_tm), True)"
proof -
  have "tm_of over_tree = over_tm"
    by (simp add: tm_of_def over_nodes over_root over_tm_def)
  then show ?thesis
    using add_heap_of[OF full_bst full_distinct full_keys full_addrs, of 0]
    by (simp add: tm_of_full full_heap_def over_tree_def over_heap_def)
qed

lemma over_tree_of: "tree_of over_heap (root_f over_tm) over_tree"
proof -
  have "TreeMap_inv (full_heap, full_tm) full_tree" by (rule full_inv)
  then have tr: "tree_of full_heap (root_f full_tm) full_tree" by (rule inv_tree)
  from add_absent[OF tr full_bst full_keys full_free, of 0] show ?thesis
    using full_add by (simp add: over_tree_def over_tm_def full_tm_def)
qed

subsection \<open>The invariant below the limit of the counter\<close>

text \<open>
  Every \<^verbatim>\<open>remove\<close>, and every \<^verbatim>\<open>add\<close> that does not put a new key into a tree of
  4294967295 nodes, leads from a state that satisfies the invariant to one that satisfies it;
  every \<^verbatim>\<open>add\<close> leaves an ordered tree.
\<close>

lemma invariant_preserved:
  assumes "TreeMap_inv (h, tm) t"
  shows "(alloc_ok h alloc \<longrightarrow>
           (\<exists>s' b t'. add alloc k v (h, tm) = Some (s', b)
              \<and> tree_of (fst s') (root_f (snd s')) t' \<and> bst t' \<and> distinct (keys t')
              \<and> (alloc = None \<or> k \<in> set (keys t) \<or> nodes t < 4294967295 \<longrightarrow>
                    TreeMap_inv s' t')))
       \<and> (\<exists>s' res t'. remove k' (h, tm) = Some (s', res) \<and> TreeMap_inv s' t' \<and> distinct (keys t'))"
proof -
  note tr = inv_tree[OF assms(1)] and b = inv_bst[OF assms(1)] and sz = inv_size[OF assms(1)]
  have dk: "distinct (keys t)" using b by (rule bst_distinct_keys)
  have A: "\<exists>s' b t'. add alloc k v (h, tm) = Some (s', b)
              \<and> tree_of (fst s') (root_f (snd s')) t' \<and> bst t' \<and> distinct (keys t')
              \<and> (alloc = None \<or> k \<in> set (keys t) \<or> nodes t < 4294967295 \<longrightarrow>
                    TreeMap_inv s' t')"
    if ok: "alloc_ok h alloc"
  proof (cases alloc)
    case None
    then have "add alloc k v (h, tm) = Some ((h, tm), False)" by (simp add: add_def)
    then show ?thesis using assms tr b dk by fastforce
  next
    case (Some a)
    then have f: "h a = None" using ok by (simp add: alloc_ok_def)
    show ?thesis
    proof (cases "k \<in> set (keys t)")
      case True
      from add_present[OF tr b True f, of v] Some assms tr b dk show ?thesis by fastforce
    next
      case False
      from add_absent_inv[OF tr b False f, of v] obtain h' tm' t' where r:
        "add (Some a) k v (h, tm) = Some ((h', tm'), True)"
        "tree_of h' (root_f tm') t'" "bst t'"
        "nodes t' = nodes t + 1" "size_f tm' = size_f tm + 1"
        by blast
      have "TreeMap_inv (h', tm') t'" if lt: "nodes t < 4294967295"
      proof -
        have "unat (size_f tm + 1) = unat (size_f tm) + 1"
          using lt sz by (simp add: unat_word_ariths)
        then show ?thesis using r sz by (simp add: TreeMap_inv_def)
      qed
      then show ?thesis using r(1,2,3) Some False bst_distinct_keys[OF r(3)] by fastforce
    qed
  qed
  have R: "\<exists>s' res t'. remove k' (h, tm) = Some (s', res) \<and> TreeMap_inv s' t' \<and> distinct (keys t')"
  proof (cases "k' \<in> set (keys t)")
    case False
    from remove_absent[OF tr False] assms dk show ?thesis by blast
  next
    case True
    then obtain v where v: "(k', v) \<in> set (inorder t)" using key_has_value by fastforce
    from remove_present[OF tr b v] obtain h' p' where r:
      "remove k' (h, tm) = Some ((h', tm\<lparr>root_f := p', size_f := size_f tm - 1\<rparr>), Inr v)"
      "tree_of h' p' (unlink t k')"
      by blast
    have bu: "bst (unlink t k')" using bst_unlink[OF b, of k'] by simp
    have n: "nodes (unlink t k') + 1 = nodes t" using b True by (rule nodes_unlink)
    then have nz: "unat (size_f tm) \<noteq> 0" using sz by simp
    then have "size_f tm \<noteq> 0" by (auto simp: unat_eq_zero)
    then have "unat (size_f tm - 1) = unat (size_f tm) - 1" by (rule unat_minus_one)
    then have "unat (size_f tm - 1) = nodes (unlink t k')" using n sz by simp
    then have "TreeMap_inv (h', tm\<lparr>root_f := p', size_f := size_f tm - 1\<rparr>) (unlink t k')"
      using r(2) bu by (simp add: TreeMap_inv_def)
    then show ?thesis using r(1) bu bst_distinct_keys by blast
  qed
  show ?thesis using A R by blast
qed

lemma sorted_keys_unique:
  fixes ks :: "'k::linorder list"
  assumes "sorted_wrt (<) ks" "set ks = set zs" "distinct zs"
  shows "ks = sort zs"
proof -
  have "sorted ks" "distinct ks" using assms(1) strict_sorted_iff by auto
  then show ?thesis using assms(2,3)
    by (intro sorted_distinct_set_unique) simp_all
qed

section \<open>The claims of the specification\<close>

text \<open>
  Claim C1, as the code has it. Let \<open>k\<close> be a key that is not in the tree and \<open>v\<close> a value,
  and let the allocation of the new node succeed (\<^verbatim>\<open>new\<close> returns a fresh address \<open>a\<close>). Then
  \<^verbatim>\<open>add(k, v)\<close> returns true and \<^verbatim>\<open>at(k)\<close> afterwards returns \<open>v\<close>; and if the map held
  fewer than 4294967295 entries, \<^verbatim>\<open>size()\<close> has increased by exactly 1.

  The claim without the proviso on the allocation fails: when \<^verbatim>\<open>new\<close> throws
  \<^verbatim>\<open>std::bad_alloc\<close>, \<^verbatim>\<open>add\<close> catches it and returns false for a key that is not in the
  tree, as its header comment announces ("true if there was enough space to allocate another
  node AND this key is not equivalent to one in this tree already"). What \<^verbatim>\<open>size()\<close>
  returns after an \<^verbatim>\<open>add\<close> to a map of 4294967295 entries is left out here; it is the
  subject of claim C6.
\<close>

theorem add_absent_key:
  assumes "TreeMap_inv (h, tm) t" "k \<notin> set (keys t)" "h a = None"
  shows "\<exists>s'. add (Some a) k v (h, tm) = Some (s', True)
           \<and> at k s' = Some (Inr v)
           \<and> (unat (size_tm tm) < 4294967295 \<longrightarrow> unat (size_tm (snd s')) = unat (size_tm tm) + 1)"
proof -
  from add_absent_inv[OF inv_tree[OF assms(1)] inv_bst[OF assms(1)] assms(2,3), of v]
  obtain h' tm' t' where r:
    "add (Some a) k v (h, tm) = Some ((h', tm'), True)"
    "tree_of h' (root_f tm') t'" "bst t'"
    "set (inorder t') = insert (k, v) (set (inorder t))"
    "size_f tm' = size_f tm + 1"
    by blast
  have "atHelper h' (root_f tm') k = Some (Inr v)"
    using r(2,3,4) by (intro atHelper_present[where t = t']) auto
  then have a: "at k (h', tm') = Some (Inr v)" by (simp add: at_def)
  have "unat (size_f tm + 1) = unat (size_f tm) + 1" if "unat (size_f tm) < 4294967295"
    using that by (simp add: unat_word_ariths)
  then show ?thesis using r(1,5) a by (auto simp: size_tm_def)
qed

theorem add_absent_key_witness:
  "TreeMap_inv (ex_heap, ex_tm) ex_tree \<and> 7 \<notin> set (keys ex_tree) \<and> ex_heap 4 = None
   \<and> unat (size_tm ex_tm) < 4294967295
   \<and> (\<exists>s'. add (Some 4) 7 (CHR ''d'') (ex_heap, ex_tm) = Some (s', True)
          \<and> at 7 s' = Some (Inr (CHR ''d''))
          \<and> unat (size_tm (snd s')) = unat (size_tm ex_tm) + 1)"
proof -
  have h1: "TreeMap_inv (ex_heap, ex_tm) ex_tree"
    by (simp add: TreeMap_inv_def ex_heap_def ex_tm_def ex_tree_def keys_def)
  have h2: "7 \<notin> set (keys ex_tree)" by (simp add: ex_tree_def keys_def)
  have h3: "ex_heap 4 = None" by (simp add: ex_heap_def)
  have h4: "unat (size_tm ex_tm) < 4294967295" by (simp add: size_tm_def ex_tm_def)
  show ?thesis using h1 h2 h3 h4 add_absent_key[OF h1 h2 h3, of "CHR ''d''"] by blast
qed

theorem add_absent_key_counterexample:
  "TreeMap_inv (ex_heap, ex_tm) ex_tree
   \<and> at 7 (ex_heap, ex_tm) = Some (Inl KeyNotFound)
   \<and> add None 7 (CHR ''d'') (ex_heap, ex_tm) = Some ((ex_heap, ex_tm), False)
   \<and> at (0::nat) (Map.empty :: (nat, nat) heap, TreeMap_ctor) = Some (Inl KeyNotFound)
   \<and> add None (0::nat) (0::nat) (Map.empty, TreeMap_ctor) = Some ((Map.empty, TreeMap_ctor), False)"
proof -
  have 1: "TreeMap_inv (ex_heap, ex_tm) ex_tree"
    by (simp add: TreeMap_inv_def ex_heap_def ex_tm_def ex_tree_def keys_def)
  have "7 \<notin> set (keys ex_tree)" by (simp add: ex_tree_def keys_def)
  with inv_tree[OF 1] have 2: "at 7 (ex_heap, ex_tm) = Some (Inl KeyNotFound)"
    by (rule at_absent)
  have 3: "add None 7 (CHR ''d'') (ex_heap, ex_tm) = Some ((ex_heap, ex_tm), False)"
    by (simp add: add_def)
  have 4: "at (0::nat) (Map.empty :: (nat, nat) heap, TreeMap_ctor) = Some (Inl KeyNotFound)"
    by (rule at_absent[where t = Tip]) (simp_all add: TreeMap_ctor_def keys_def)
  have 5: "add None (0::nat) (0::nat) (Map.empty, TreeMap_ctor) =
      Some ((Map.empty, TreeMap_ctor), False)"
    by (simp add: add_def)
  show ?thesis using 1 2 3 4 5 by blast
qed

text \<open>
  Claim C2. Let the key \<open>k\<close> be in the tree with the value \<open>v1\<close>. Then \<^verbatim>\<open>add(k, v2)\<close> returns
  false, whatever \<^verbatim>\<open>new\<close> did, and leaves the store and the map object exactly as they
  were (the node that was allocated for the call is freed again): \<^verbatim>\<open>at(k)\<close> still returns
  \<open>v1\<close> and \<^verbatim>\<open>size()\<close> is unchanged.
\<close>

theorem add_present_key_rejected:
  assumes "TreeMap_inv (h, tm) t" "(k, v1) \<in> set (inorder t)" "alloc_ok h alloc"
  shows "\<exists>s'. add alloc k v2 (h, tm) = Some (s', False)
           \<and> s' = (h, tm)
           \<and> at k s' = Some (Inr v1)
           \<and> size_tm (snd s') = size_tm tm"
proof -
  have k: "k \<in> set (keys t)" using assms(2) by (rule value_has_key)
  have run: "add alloc k v2 (h, tm) = Some ((h, tm), False)"
  proof (cases alloc)
    case None then show ?thesis by (simp add: add_def)
  next
    case (Some a)
    then have "h a = None" using assms(3) by (simp add: alloc_ok_def)
    with add_present[OF inv_tree[OF assms(1)] inv_bst[OF assms(1)] k] Some show ?thesis by simp
  qed
  moreover have "at k (h, tm) = Some (Inr v1)" using assms(1,2) by (rule at_present)
  ultimately show ?thesis by simp
qed

theorem add_present_key_rejected_witness:
  "TreeMap_inv (ex_heap, ex_tm) ex_tree \<and> (3, CHR ''b'') \<in> set (inorder ex_tree)
   \<and> alloc_ok ex_heap (Some 4)
   \<and> (\<exists>s'. add (Some 4) 3 (CHR ''z'') (ex_heap, ex_tm) = Some (s', False)
          \<and> s' = (ex_heap, ex_tm)
          \<and> at 3 s' = Some (Inr (CHR ''b''))
          \<and> size_tm (snd s') = size_tm ex_tm)"
proof -
  have h1: "TreeMap_inv (ex_heap, ex_tm) ex_tree"
    by (simp add: TreeMap_inv_def ex_heap_def ex_tm_def ex_tree_def keys_def)
  have h2: "(3, CHR ''b'') \<in> set (inorder ex_tree)" by (simp add: ex_tree_def)
  have h3: "alloc_ok ex_heap (Some 4)" by (simp add: alloc_ok_def ex_heap_def)
  show ?thesis using h1 h2 h3 add_present_key_rejected[OF h1 h2 h3, of "CHR ''z''"] by blast
qed

text \<open>
  Claim C3. Let the key \<open>k\<close> be in the tree with the value \<open>v\<close>. Then \<^verbatim>\<open>remove(k)\<close> returns
  \<open>v\<close>, \<^verbatim>\<open>size()\<close> has decreased by exactly 1, and \<^verbatim>\<open>at(k)\<close> afterwards throws the
  \<^verbatim>\<open>out_of_range\<close> exception of a missing key.
\<close>

theorem remove_present_key:
  assumes "TreeMap_inv (h, tm) t" "(k, v) \<in> set (inorder t)"
  shows "\<exists>s'. remove k (h, tm) = Some (s', Inr v)
           \<and> unat (size_tm (snd s')) + 1 = unat (size_tm tm)
           \<and> at k s' = Some (Inl KeyNotFound)"
proof -
  note tr = inv_tree[OF assms(1)] and b = inv_bst[OF assms(1)] and sz = inv_size[OF assms(1)]
  from remove_present[OF tr b assms(2)] obtain h' p' where r:
    "remove k (h, tm) = Some ((h', tm\<lparr>root_f := p', size_f := size_f tm - 1\<rparr>), Inr v)"
    "tree_of h' p' (unlink t k)"
    by blast
  have "k \<notin> set (keys (unlink t k))" using bst_unlink[OF b, of k] by (auto simp: keys_def)
  then have a: "at k (h', tm\<lparr>root_f := p', size_f := size_f tm - 1\<rparr>) = Some (Inl KeyNotFound)"
    using r(2) by (intro at_absent[where t = "unlink t k"]) simp_all
  have "nodes t > 0" using nodes_unlink[OF b value_has_key[OF assms(2)]] by simp
  then have nz: "unat (size_f tm) \<noteq> 0" using sz by simp
  then have "size_f tm \<noteq> 0" by (auto simp: unat_eq_zero)
  then have "unat (size_f tm - 1) = unat (size_f tm) - 1" by (rule unat_minus_one)
  then have "unat (size_f tm - 1) + 1 = unat (size_f tm)" using nz by simp
  then show ?thesis using r(1) a by (simp add: size_tm_def)
qed

theorem remove_present_key_witness:
  "TreeMap_inv (ex_heap, ex_tm) ex_tree \<and> (5, CHR ''a'') \<in> set (inorder ex_tree)
   \<and> (\<exists>s'. remove 5 (ex_heap, ex_tm) = Some (s', Inr (CHR ''a''))
          \<and> unat (size_tm (snd s')) + 1 = 3
          \<and> at 5 s' = Some (Inl KeyNotFound))"
proof -
  have h1: "TreeMap_inv (ex_heap, ex_tm) ex_tree"
    by (simp add: TreeMap_inv_def ex_heap_def ex_tm_def ex_tree_def keys_def)
  have h2: "(5, CHR ''a'') \<in> set (inorder ex_tree)" by (simp add: ex_tree_def)
  have "unat (size_tm ex_tm) = 3" by (simp add: size_tm_def ex_tm_def)
  then show ?thesis using h1 h2 remove_present_key[OF h1 h2] by simp
qed

text \<open>
  Claim C4. When \<^verbatim>\<open>removeHelper\<close> stands at a node with the key it looks for: if the node
  has a right child, the returned subtree is the one that \<^verbatim>\<open>addHelper\<close>, the routine of
  \<^verbatim>\<open>add\<close>, returns for the left subtree as \<^verbatim>\<open>current\<close> and the root of the right subtree
  as \<^verbatim>\<open>newElement\<close>; otherwise it is the left subtree; in both cases the node is freed.
  For a map that satisfies its invariant and holds the key \<open>k\<close>, the tree after
  \<^verbatim>\<open>remove(k)\<close> has the returned subtree at the place of the removed node (it is
  \<open>unlink t k\<close>), is ordered, and its keys are the keys before without \<open>k\<close>.
\<close>

theorem remove_splices_subtrees:
  assumes "TreeMap_inv (h, tm) t" "(k, v) \<in> set (inorder t)"
  shows "(\<forall>c cur. h c = Some cur \<and> fst (payload cur) = k \<longrightarrow>
            removeHelper h (Some c) k =
              (if right cur \<noteq> None then do {
                 (h1, r, unused) \<leftarrow> addHelper h (left cur) (right cur);
                 h2 \<leftarrow> delete h1 (Some c);
                 Some (h2, Inr (r, snd (payload cur)))
               } else Some (h(c := None), Inr (left cur, snd (payload cur)))))
       \<and> (\<exists>s'. remove k (h, tm) = Some (s', Inr v)
             \<and> tree_of (fst s') (root_f (snd s')) (unlink t k))
       \<and> bst (unlink t k)
       \<and> set (keys (unlink t k)) = set (keys t) - {k}"
proof -
  note tr = inv_tree[OF assms(1)] and b = inv_bst[OF assms(1)]
  have 1: "removeHelper h (Some c) k =
              (if right cur \<noteq> None then do {
                 (h1, r, unused) \<leftarrow> addHelper h (left cur) (right cur);
                 h2 \<leftarrow> delete h1 (Some c);
                 Some (h2, Inr (r, snd (payload cur)))
               } else Some (h(c := None), Inr (left cur, snd (payload cur))))"
    if "h c = Some cur" "fst (payload cur) = k" for c cur
    using that
    by (subst removeHelper.simps)
       (auto simp: load_def delete_def split: Option.bind_splits prod.splits)
  from remove_present[OF tr b assms(2)] have 2:
    "\<exists>s'. remove k (h, tm) = Some (s', Inr v) \<and> tree_of (fst s') (root_f (snd s')) (unlink t k)"
    by auto
  have 3: "bst (unlink t k)" using bst_unlink[OF b, of k] by simp
  have "set (inorder (unlink t k)) = {kv \<in> set (inorder t). fst kv \<noteq> k}"
    using bst_unlink[OF b, of k] by simp
  then have 4: "set (keys (unlink t k)) = set (keys t) - {k}" by (auto simp: keys_def)
  show ?thesis using 1 2 3 4 by blast
qed

theorem remove_splices_subtrees_witness:
  "TreeMap_inv (ex_heap, ex_tm) ex_tree \<and> (5, CHR ''a'') \<in> set (inorder ex_tree)
   \<and> ex_heap 1 = Some \<lparr>payload = (5, CHR ''a''), right = Some 3, left = Some 2\<rparr>
   \<and> removeHelper ex_heap (Some 1) 5 =
       do {
         (h1, r, unused) \<leftarrow> addHelper ex_heap (Some 2) (Some 3);
         h2 \<leftarrow> delete h1 (Some 1);
         Some (h2, Inr (r, CHR ''a''))
       }
   \<and> (\<exists>s'. remove 5 (ex_heap, ex_tm) = Some (s', Inr (CHR ''a''))
          \<and> tree_of (fst s') (root_f (snd s'))
               (Br Tip 2 (3, CHR ''b'') (Br Tip 3 (8, CHR ''c'') Tip)))
   \<and> bst (Br Tip 2 (3 :: int, CHR ''b'') (Br Tip 3 (8, CHR ''c'') Tip))
   \<and> set (keys (Br Tip 2 (3 :: int, CHR ''b'') (Br Tip 3 (8, CHR ''c'') Tip))) = {3, 5, 8} - {5}"
proof -
  have h1: "TreeMap_inv (ex_heap, ex_tm) ex_tree"
    by (simp add: TreeMap_inv_def ex_heap_def ex_tm_def ex_tree_def keys_def)
  have h2: "(5, CHR ''a'') \<in> set (inorder ex_tree)" by (simp add: ex_tree_def)
  have h3: "ex_heap 1 = Some \<lparr>payload = (5, CHR ''a''), right = Some 3, left = Some 2\<rparr>"
    by (simp add: ex_heap_def)
  have u: "unlink ex_tree 5 = Br Tip 2 (3, CHR ''b'') (Br Tip 3 (8, CHR ''c'') Tip)"
    by (simp add: ex_tree_def)
  have k: "set (keys ex_tree) = {3, 5, 8}" by (auto simp: ex_tree_def keys_def)
  note th = remove_splices_subtrees[OF h1 h2]
  have "removeHelper ex_heap (Some 1) 5 =
       do {
         (h1, r, unused) \<leftarrow> addHelper ex_heap (Some 2) (Some 3);
         h2 \<leftarrow> delete h1 (Some 1);
         Some (h2, Inr (r, CHR ''a''))
       }"
    using conjunct1[OF th, rule_format,
        of 1 "\<lparr>payload = (5, CHR ''a''), right = Some 3, left = Some 2\<rparr>"] h3
    by simp
  then show ?thesis using h1 h2 h3 th u k by simp
qed

text \<open>
  Claim C5. Let the key \<open>k\<close> be absent from the tree. Then \<^verbatim>\<open>at(k)\<close> and \<^verbatim>\<open>remove(k)\<close>
  both throw the \<^verbatim>\<open>out_of_range\<close> exception of a missing key, and \<^verbatim>\<open>remove(k)\<close> leaves
  the store and the map object (hence \<^verbatim>\<open>size()\<close>) exactly as they were; so it is for
  the empty map \<^verbatim>\<open>TreeMap()\<close> in any store. No failed operation leaves a partial change:
  a \<^verbatim>\<open>remove\<close> that throws, for whatever key, and an \<^verbatim>\<open>add\<close> that returns false leave the
  store and the map object as they were (\<^verbatim>\<open>at\<close> is \<^verbatim>\<open>const\<close> and writes nothing).
\<close>

theorem absent_key_fails:
  assumes "TreeMap_inv (h, tm) t" "k \<notin> set (keys t)"
  shows "at k (h, tm) = Some (Inl KeyNotFound)
       \<and> remove k (h, tm) = Some ((h, tm), Inl KeyNotFound)
       \<and> at k (h0, TreeMap_ctor) = Some (Inl KeyNotFound)
       \<and> remove k (h0, TreeMap_ctor) = Some ((h0, TreeMap_ctor), Inl KeyNotFound)
       \<and> (\<forall>k' s' e. remove k' (h, tm) = Some (s', Inl e) \<longrightarrow> s' = (h, tm) \<and> e = KeyNotFound)
       \<and> (\<forall>alloc k' v s'. alloc_ok h alloc \<and> add alloc k' v (h, tm) = Some (s', False)
             \<longrightarrow> s' = (h, tm))"
proof -
  note tr = inv_tree[OF assms(1)] and b = inv_bst[OF assms(1)]
  have e: "tree_of h0 (root_f TreeMap_ctor) Tip" "k \<notin> set (keys Tip)"
    by (simp_all add: TreeMap_ctor_def keys_def)
  have 1: "at k (h, tm) = Some (Inl KeyNotFound)" using tr assms(2) by (rule at_absent)
  have 2: "remove k (h, tm) = Some ((h, tm), Inl KeyNotFound)"
    using tr assms(2) by (rule remove_absent)
  have 3: "at k (h0, TreeMap_ctor) = Some (Inl KeyNotFound)" using e by (rule at_absent)
  have 4: "remove k (h0, TreeMap_ctor) = Some ((h0, TreeMap_ctor), Inl KeyNotFound)"
    using e by (rule remove_absent)
  have 5: "s' = (h, tm) \<and> e = KeyNotFound" if "remove k' (h, tm) = Some (s', Inl e)" for k' s' e
  proof (cases "k' \<in> set (keys t)")
    case True
    then obtain v where "(k', v) \<in> set (inorder t)" using key_has_value by fastforce
    from remove_present[OF tr b this] that show ?thesis by auto
  next
    case False
    from remove_absent[OF tr False] that show ?thesis by simp
  qed
  have 6: "s' = (h, tm)" if "alloc_ok h alloc" "add alloc k' v (h, tm) = Some (s', False)"
    for alloc k' v s'
  proof (cases alloc)
    case None with that(2) show ?thesis by (simp add: add_def)
  next
    case (Some a)
    then have f: "h a = None" using that(1) by (simp add: alloc_ok_def)
    show ?thesis
    proof (cases "k' \<in> set (keys t)")
      case True
      from add_present[OF tr b True f, of v] that(2) Some show ?thesis by simp
    next
      case False
      from add_absent[OF tr b False f, of v] that(2) Some show ?thesis by auto
    qed
  qed
  show ?thesis using 1 2 3 4 5 6 by blast
qed

theorem absent_key_fails_witness:
  "TreeMap_inv (ex_heap, ex_tm) ex_tree \<and> 7 \<notin> set (keys ex_tree)
   \<and> at 7 (ex_heap, ex_tm) = Some (Inl KeyNotFound)
   \<and> remove 7 (ex_heap, ex_tm) = Some ((ex_heap, ex_tm), Inl KeyNotFound)
   \<and> at 7 (ex_heap, TreeMap_ctor) = Some (Inl KeyNotFound)
   \<and> remove 7 (ex_heap, TreeMap_ctor) = Some ((ex_heap, TreeMap_ctor), Inl KeyNotFound)"
proof -
  have h1: "TreeMap_inv (ex_heap, ex_tm) ex_tree"
    by (simp add: TreeMap_inv_def ex_heap_def ex_tm_def ex_tree_def keys_def)
  have h2: "7 \<notin> set (keys ex_tree)" by (simp add: ex_tree_def keys_def)
  show ?thesis using h1 h2 absent_key_fails[OF h1 h2, of ex_heap] by blast
qed

text \<open>
  Claim C6 does not hold of the code, because of the counter \<^verbatim>\<open>size_\<close>: it is an
  \<^verbatim>\<open>unsigned int\<close>, and \<^verbatim>\<open>size_++\<close> in \<^verbatim>\<open>add\<close> does not test for its largest value.
  Take the empty map and add the 4294967295 keys \<open>1, ..., 4294967295\<close>, the middle key of
  each range first. Every call returns true, and the map it leaves satisfies the invariant,
  with a tree of height 32 and \<^verbatim>\<open>size()\<close> = 4294967295. The key 4294967296 is not in the
  map. Now \<^verbatim>\<open>add(4294967296, 0)\<close> returns true and links the new node, so the nodes
  reachable from \<^verbatim>\<open>root_\<close> form an ordered tree of 4294967296 nodes with pairwise distinct
  keys, in which \<^verbatim>\<open>at(4294967296)\<close> finds the new value; but \<^verbatim>\<open>size_\<close> has wrapped to 0,
  so \<^verbatim>\<open>size()\<close> returns 0 and no tree satisfies the invariant in the state that this
  \<^verbatim>\<open>add\<close> leaves.
\<close>

theorem add_overflows_count:
  "add_all full_adds (Map.empty, TreeMap_ctor)
     = Some ((full_heap, full_tm), replicate 4294967295 True)
   \<and> TreeMap_inv (full_heap, full_tm) full_tree
   \<and> height full_tree = 32
   \<and> size_tm full_tm = 4294967295
   \<and> full_heap 4294967296 = None
   \<and> at 4294967296 (full_heap, full_tm) = Some (Inl KeyNotFound)
   \<and> add (Some 4294967296) 4294967296 0 (full_heap, full_tm) = Some ((over_heap, over_tm), True)
   \<and> tree_of over_heap (root_f over_tm) over_tree
   \<and> bst over_tree
   \<and> distinct (keys over_tree)
   \<and> nodes over_tree = 4294967296
   \<and> at 4294967296 (over_heap, over_tm) = Some (Inr 0)
   \<and> size_tm over_tm = 0
   \<and> \<not> (\<exists>t'. TreeMap_inv (over_heap, over_tm) t')"
proof -
  have 1: "size_tm full_tm = 4294967295" by (simp add: size_tm_def full_tm_def)
  have 2: "at 4294967296 (full_heap, full_tm) = Some (Inl KeyNotFound)"
    using inv_tree[OF full_inv] full_keys by (rule at_absent)
  have 3: "distinct (keys over_tree)" using over_bst by (rule bst_distinct_keys)
  have "(4294967296, 0) \<in> set (inorder over_tree)"
    unfolding over_tree_def
    using inorder_graft_set[OF full_keys, of "Br Tip 4294967296 (4294967296, 0) Tip"] by simp
  then have "atHelper over_heap (root_f over_tm) 4294967296 = Some (Inr 0)"
    using over_tree_of over_bst by (intro atHelper_present[where t = over_tree])
  then have 4: "at 4294967296 (over_heap, over_tm) = Some (Inr 0)" by (simp add: at_def)
  have 5: "size_tm over_tm = 0" by (simp add: size_tm_def over_tm_def)
  have 6: "\<not> TreeMap_inv (over_heap, over_tm) t'" for t'
    by (cases t') (simp_all add: TreeMap_inv_def over_tm_def)
  show ?thesis
    using full_reachable full_inv full_height 1 full_free 2 full_add over_tree_of over_bst 3
      over_nodes 4 5 6
    by blast
qed

text \<open>
  Claim C7. For a map that satisfies its invariant, the loop
  \<^verbatim>\<open>for (it = begin(); it != end(); ++it)\<close> ends without an exception, and the payloads
  \<^verbatim>\<open>*it\<close> it has seen have strictly ascending keys (so each key once) and are exactly the
  pairs \<open>(k, v)\<close> for which \<^verbatim>\<open>at(k)\<close> returns \<open>v\<close>. In particular, after calls
  \<^verbatim>\<open>add(k, v)\<close> for a list of pairwise distinct keys, in any order, on an empty map, a
  call has returned true if and only if its allocation succeeded, and the keys that the
  loop sees are the sorted list of the keys of these calls: of all the keys when no
  allocation failed.
\<close>

theorem iteration_ascending:
  fixes h :: "('k::linorder, 'v) heap"
  assumes "TreeMap_inv (h, tm) t"
  shows "(\<exists>it kvs. begin_tm (h, tm) = Some it \<and> iterate h it = Some (Inr kvs)
            \<and> sorted_wrt (<) (map fst kvs) \<and> distinct (map fst kvs)
            \<and> set (map fst kvs) = set (keys t)
            \<and> (\<forall>k v. (k, v) \<in> set kvs \<longleftrightarrow> at k (h, tm) = Some (Inr v)))
       \<and> (\<forall>(xs :: (addr option \<times> 'k \<times> 'v) list) h0.
              distinct (map (fst \<circ> snd) xs) \<and> distinct (allocated xs)
              \<and> (\<forall>a \<in> set (allocated xs). h0 a = None) \<longrightarrow>
            (\<exists>s' it kvs.
               add_all xs (h0, TreeMap_ctor) = Some (s', map (\<lambda>x. fst x \<noteq> None) xs)
               \<and> begin_tm s' = Some it \<and> iterate (fst s') it = Some (Inr kvs)
               \<and> map fst kvs = sort (map (fst \<circ> snd) (filter (\<lambda>x. fst x \<noteq> None) xs))))"
proof -
  note tr = inv_tree[OF assms(1)] and b = inv_bst[OF assms(1)]
  from iterate_begin[OF tr] obtain it where it:
    "begin_tm (h, tm) = Some it" "iterate h it = Some (Inr (inorder t))" by blast
  have s: "sorted_wrt (<) (map fst (inorder t))" using bst_sorted[OF b] by (simp add: keys_def)
  have d: "distinct (map fst (inorder t))" using bst_distinct_keys[OF b] by (simp add: keys_def)
  have 1: "\<exists>it kvs. begin_tm (h, tm) = Some it \<and> iterate h it = Some (Inr kvs)
            \<and> sorted_wrt (<) (map fst kvs) \<and> distinct (map fst kvs)
            \<and> set (map fst kvs) = set (keys t)
            \<and> (\<forall>k v. (k, v) \<in> set kvs \<longleftrightarrow> at k (h, tm) = Some (Inr v))"
    using it s d at_iff[OF assms(1)] by (auto simp: keys_def)
  have 2: "\<exists>s' it kvs.
               add_all xs (h0, TreeMap_ctor) = Some (s', map (\<lambda>x. fst x \<noteq> None) xs)
               \<and> begin_tm s' = Some it \<and> iterate (fst s') it = Some (Inr kvs)
               \<and> map fst kvs = sort (map (fst \<circ> snd) (filter (\<lambda>x. fst x \<noteq> None) xs))"
    if x: "distinct (map (fst \<circ> snd) xs)" "distinct (allocated xs)"
      "\<forall>a \<in> set (allocated xs). h0 a = None"
    for xs :: "(addr option \<times> 'k \<times> 'v) list" and h0
  proof -
    let ?ins = "map (fst \<circ> snd) (filter (\<lambda>x. fst x \<noteq> None) xs)"
    have "\<exists>h' tm' t'. add_all xs (h0, TreeMap_ctor) = Some ((h', tm'), map (\<lambda>x. fst x \<noteq> None) xs)
           \<and> tree_of h' (root_f tm') t' \<and> bst t'
           \<and> set (keys t') = set (keys (Tip :: ('k, 'v) tree)) \<union> set ?ins"
    proof (rule add_all_fresh)
      show "tree_of h0 (root_f TreeMap_ctor) Tip" by (simp add: TreeMap_ctor_def)
      show "bst (Tip :: ('k, 'v) tree)" by simp
      show "set (map (fst \<circ> snd) xs) \<inter> set (keys (Tip :: ('k, 'v) tree)) = {}"
        by (simp add: keys_def)
    qed (use x in simp_all)
    then obtain h' tm' t' where r:
      "add_all xs (h0, TreeMap_ctor) = Some ((h', tm'), map (\<lambda>x. fst x \<noteq> None) xs)"
      "tree_of h' (root_f tm') t'" "bst t'" "set (keys t') = set ?ins"
      by (auto simp: keys_def)
    from iterate_begin[OF r(2)] obtain it where it:
      "begin_tm (h', tm') = Some it" "iterate h' it = Some (Inr (inorder t'))" by blast
    have "distinct ?ins" using x(1) by (simp add: distinct_map_filter)
    with bst_sorted[OF r(3)] r(4) have "keys t' = sort ?ins" by (rule sorted_keys_unique)
    then show ?thesis using r(1) it by (auto simp: keys_def)
  qed
  show ?thesis using 1 2 by blast
qed

theorem iteration_ascending_witness:
  "TreeMap_inv (ex_heap, ex_tm) ex_tree
   \<and> (\<exists>it kvs. begin_tm (ex_heap, ex_tm) = Some it \<and> iterate ex_heap it = Some (Inr kvs)
          \<and> sorted_wrt (<) (map fst kvs) \<and> distinct (map fst kvs)
          \<and> set (map fst kvs) = {3, 5, 8})
   \<and> distinct (map (fst \<circ> snd) ex_adds) \<and> distinct (allocated ex_adds)
   \<and> set (allocated ex_adds) \<inter> dom (Map.empty :: (int, char) heap) = {}
   \<and> (\<exists>s' it kvs.
          add_all ex_adds (Map.empty, TreeMap_ctor) = Some (s', [True, True, False, True])
          \<and> begin_tm s' = Some it \<and> iterate (fst s') it = Some (Inr kvs)
          \<and> map fst kvs = [3, 5, 8])"
proof -
  have h1: "TreeMap_inv (ex_heap, ex_tm) ex_tree"
    by (simp add: TreeMap_inv_def ex_heap_def ex_tm_def ex_tree_def keys_def)
  have h2: "distinct (map (fst \<circ> snd) ex_adds) \<and> distinct (allocated ex_adds)
      \<and> (\<forall>a \<in> set (allocated ex_adds). (Map.empty :: (int, char) heap) a = None)"
    by (simp add: ex_adds_def)
  have k: "set (keys ex_tree) = {3, 5, 8}" by (auto simp: ex_tree_def keys_def)
  have s: "sort (map (fst \<circ> snd) (filter (\<lambda>x. fst x \<noteq> None) ex_adds)) = [3, 5, 8]"
    by (simp add: ex_adds_def)
  have l: "map (\<lambda>x. fst x \<noteq> None) ex_adds = [True, True, False, True]"
    by (simp add: ex_adds_def)
  note th = iteration_ascending[OF h1]
  have 2: "\<exists>s' it kvs.
          add_all ex_adds (Map.empty, TreeMap_ctor) = Some (s', [True, True, False, True])
          \<and> begin_tm s' = Some it \<and> iterate (fst s') it = Some (Inr kvs)
          \<and> map fst kvs = [3, 5, 8]"
    using conjunct2[OF th, rule_format, of ex_adds Map.empty, OF h2] unfolding s l .
  have 1: "\<exists>it kvs. begin_tm (ex_heap, ex_tm) = Some it \<and> iterate ex_heap it = Some (Inr kvs)
          \<and> sorted_wrt (<) (map fst kvs) \<and> distinct (map fst kvs)
          \<and> set (map fst kvs) = {3, 5, 8}"
    using conjunct1[OF th] unfolding k by blast
  show ?thesis
    apply (intro conjI)
    using h1 apply assumption
    using 1 apply assumption
    using h2 apply simp
    using h2 apply simp
    apply simp
    using 2 apply assumption
    done
qed

text \<open>
  Claim C8. Each of \<^verbatim>\<open>operator*\<close>, \<^verbatim>\<open>operator->\<close>, \<^verbatim>\<open>operator++()\<close> and \<^verbatim>\<open>operator++(int)\<close>
  throws the \<^verbatim>\<open>out_of_range\<close> exception of an exhausted iterator if and only if the stack
  of the iterator is empty before the call; no call throws anything else, and a call that
  throws leaves the iterator as it was. When the stack is not empty, and its top is a live
  node whose right child is the root of a tree, the four operations return: the payload
  of the top node, and the iterator whose stack has the top replaced by the leftmost path
  of the right subtree.
\<close>

theorem exhausted_iff_stack_empty:
  shows "(operator_deref h it = Some (Inl IteratorExhausted) \<longleftrightarrow> toBeProcessed_f it = [])
       \<and> (operator_arrow h it = Some (Inl IteratorExhausted) \<longleftrightarrow> toBeProcessed_f it = [])
       \<and> ((\<exists>it'. operator_preinc h it = Some (it', Inl IteratorExhausted)) \<longleftrightarrow> toBeProcessed_f it = [])
       \<and> ((\<exists>it'. operator_postinc h it = Some (it', Inl IteratorExhausted)) \<longleftrightarrow> toBeProcessed_f it = [])
       \<and> (\<forall>e. operator_deref h it = Some (Inl e) \<longrightarrow> e = IteratorExhausted \<and> toBeProcessed_f it = [])
       \<and> (\<forall>e. operator_arrow h it = Some (Inl e) \<longrightarrow> e = IteratorExhausted \<and> toBeProcessed_f it = [])
       \<and> (\<forall>it' e. operator_preinc h it = Some (it', Inl e) \<longrightarrow>
             e = IteratorExhausted \<and> toBeProcessed_f it = [] \<and> it' = it)
       \<and> (\<forall>it' e. operator_postinc h it = Some (it', Inl e) \<longrightarrow>
             e = IteratorExhausted \<and> toBeProcessed_f it = [] \<and> it' = it)
       \<and> (\<forall>a st n r. toBeProcessed_f it = a # st \<and> h a = Some n \<and> tree_of h (right n) r \<longrightarrow>
             operator_deref h it = Some (Inr (payload n))
           \<and> operator_arrow h it = Some (Inr (payload n))
           \<and> operator_preinc h it = Some (it\<lparr>toBeProcessed_f := left_spine r st\<rparr>, Inr ())
           \<and> operator_postinc h it = Some (it\<lparr>toBeProcessed_f := left_spine r st\<rparr>, Inr it))"
proof -
  have pre: "e = IteratorExhausted \<and> toBeProcessed_f it = [] \<and> it' = it"
    if "operator_preinc h it = Some (it', Inl e)" for it' e
    using that
    by (auto simp: operator_preinc_def isLegal_def Let_def split: if_splits Option.bind_splits)
  have pre0: "operator_preinc h it = Some (it, Inl IteratorExhausted)" if "toBeProcessed_f it = []"
    using that by (simp add: operator_preinc_def isLegal_def)
  have post: "e = IteratorExhausted \<and> toBeProcessed_f it = [] \<and> it' = it"
    if "operator_postinc h it = Some (it', Inl e)" for it' e
    using that pre
    by (auto simp: operator_postinc_def Let_def split: Option.bind_splits sum.splits)
  have post0: "operator_postinc h it = Some (it, Inl IteratorExhausted)" if "toBeProcessed_f it = []"
    using pre0[OF that] by (simp add: operator_postinc_def)
  have de: "e = IteratorExhausted \<and> toBeProcessed_f it = []"
    if "operator_deref h it = Some (Inl e)" for e
    using that by (auto simp: operator_deref_def isLegal_def split: if_splits Option.bind_splits)
  have de0: "operator_deref h it = Some (Inl IteratorExhausted)" if "toBeProcessed_f it = []"
    using that by (simp add: operator_deref_def isLegal_def)
  have ar: "e = IteratorExhausted \<and> toBeProcessed_f it = []"
    if "operator_arrow h it = Some (Inl e)" for e
    using that
    by (auto simp: operator_arrow_def isLegal_def Let_def split: if_splits Option.bind_splits)
  have ar0: "operator_arrow h it = Some (Inl IteratorExhausted)" if "toBeProcessed_f it = []"
    using that by (simp add: operator_arrow_def isLegal_def)
  have live: "operator_deref h it = Some (Inr (payload n))
           \<and> operator_arrow h it = Some (Inr (payload n))
           \<and> operator_preinc h it = Some (it\<lparr>toBeProcessed_f := left_spine r st\<rparr>, Inr ())
           \<and> operator_postinc h it = Some (it\<lparr>toBeProcessed_f := left_spine r st\<rparr>, Inr it)"
    if "toBeProcessed_f it = a # st" "h a = Some n" "tree_of h (right n) r" for a st n r
    using operator_preinc_tree[OF that] that(1,2)
    by (simp add: operator_deref_def operator_arrow_def operator_postinc_def isLegal_def)
  show ?thesis
    apply (intro conjI)
    using de de0 apply blast
    using ar ar0 apply blast
    using pre pre0 apply blast
    using post post0 apply blast
    using de apply blast
    using ar apply blast
    using pre apply blast
    using post apply blast
    using live apply blast
    done
qed

theorem exhausted_iff_stack_empty_witness:
  "toBeProcessed_f \<lparr>toBeProcessed_f = [2, 1]\<rparr> = 2 # [1]
   \<and> ex_heap 2 = Some \<lparr>payload = (3, CHR ''b''), right = None, left = None\<rparr>
   \<and> tree_of ex_heap None Tip
   \<and> operator_deref ex_heap \<lparr>toBeProcessed_f = [2, 1]\<rparr> = Some (Inr (3, CHR ''b''))
   \<and> operator_arrow ex_heap \<lparr>toBeProcessed_f = [2, 1]\<rparr> = Some (Inr (3, CHR ''b''))
   \<and> operator_preinc ex_heap \<lparr>toBeProcessed_f = [2, 1]\<rparr> = Some (\<lparr>toBeProcessed_f = [1]\<rparr>, Inr ())
   \<and> operator_postinc ex_heap \<lparr>toBeProcessed_f = [2, 1]\<rparr> =
        Some (\<lparr>toBeProcessed_f = [1]\<rparr>, Inr \<lparr>toBeProcessed_f = [2, 1]\<rparr>)
   \<and> toBeProcessed_f TreeIterator_end = []
   \<and> operator_deref ex_heap TreeIterator_end = Some (Inl IteratorExhausted)
   \<and> operator_arrow ex_heap TreeIterator_end = Some (Inl IteratorExhausted)
   \<and> (\<exists>it'. operator_preinc ex_heap TreeIterator_end = Some (it', Inl IteratorExhausted))
   \<and> (\<exists>it'. operator_postinc ex_heap TreeIterator_end = Some (it', Inl IteratorExhausted))"
proof -
  let ?n = "\<lparr>payload = (3 :: int, CHR ''b''), right = None, left = None\<rparr>"
  have h1: "toBeProcessed_f \<lparr>toBeProcessed_f = [2, 1]\<rparr> = 2 # [1]" by simp
  have h2: "ex_heap 2 = Some ?n" by (simp add: ex_heap_def)
  have h3: "tree_of ex_heap (right ?n) Tip" by simp
  have h4: "toBeProcessed_f TreeIterator_end = []" by (simp add: TreeIterator_end_def)
  note live = exhausted_iff_stack_empty[of ex_heap "\<lparr>toBeProcessed_f = [2, 1]\<rparr>"]
  note dead = exhausted_iff_stack_empty[of ex_heap TreeIterator_end]
  note l9 = live[THEN conjunct2, THEN conjunct2, THEN conjunct2, THEN conjunct2,
      THEN conjunct2, THEN conjunct2, THEN conjunct2, THEN conjunct2, rule_format,
      of 2 "[1]" ?n Tip]
  have a: "operator_deref ex_heap \<lparr>toBeProcessed_f = [2, 1]\<rparr> = Some (Inr (payload ?n))
      \<and> operator_arrow ex_heap \<lparr>toBeProcessed_f = [2, 1]\<rparr> = Some (Inr (payload ?n))
      \<and> operator_preinc ex_heap \<lparr>toBeProcessed_f = [2, 1]\<rparr> =
          Some (\<lparr>toBeProcessed_f = [2, 1]\<rparr>\<lparr>toBeProcessed_f := left_spine Tip [1]\<rparr>, Inr ())
      \<and> operator_postinc ex_heap \<lparr>toBeProcessed_f = [2, 1]\<rparr> =
          Some (\<lparr>toBeProcessed_f = [2, 1]\<rparr>\<lparr>toBeProcessed_f := left_spine Tip [1]\<rparr>,
                Inr \<lparr>toBeProcessed_f = [2, 1]\<rparr>)"
    using l9 h1 h2 h3 by simp
  have b1: "operator_deref ex_heap TreeIterator_end = Some (Inl IteratorExhausted)"
    using dead[THEN conjunct1] h4 by simp
  have b2: "operator_arrow ex_heap TreeIterator_end = Some (Inl IteratorExhausted)"
    using dead[THEN conjunct2, THEN conjunct1] h4 by simp
  have b3: "\<exists>it'. operator_preinc ex_heap TreeIterator_end = Some (it', Inl IteratorExhausted)"
    using dead[THEN conjunct2, THEN conjunct2, THEN conjunct1] h4 by simp
  have b4: "\<exists>it'. operator_postinc ex_heap TreeIterator_end = Some (it', Inl IteratorExhausted)"
    using dead[THEN conjunct2, THEN conjunct2, THEN conjunct2, THEN conjunct1] h4 by simp
  show ?thesis using a b1 b2 b3 b4 h1 h2 h4 by simp
qed

text \<open>
  Claim C9. \<^verbatim>\<open>operator==\<close> is true if and only if the two stacks have the same length and
  the same node address at every position, and \<^verbatim>\<open>operator!=\<close> is its negation. Hence the
  iterators \<^verbatim>\<open>end()\<close> of any two maps are equal, as are any two iterators with an empty
  stack; and two iterators that were obtained from \<^verbatim>\<open>begin()\<close> of the same map in the
  same store and advanced the same number of times are equal. For a map that satisfies its
  invariant, \<^verbatim>\<open>begin()\<close> can be advanced as many times as the map has nodes, and after
  that many steps it is equal to \<^verbatim>\<open>end()\<close>.
\<close>

theorem iterator_equality:
  fixes s :: "('k::linorder, 'v) heap \<times> TreeMap"
  shows "(operator_eq it1 it2 \<longleftrightarrow>
            length (toBeProcessed_f it1) = length (toBeProcessed_f it2)
          \<and> (\<forall>i < length (toBeProcessed_f it1). toBeProcessed_f it1 ! i = toBeProcessed_f it2 ! i))
       \<and> (operator_neq it1 it2 \<longleftrightarrow> \<not> operator_eq it1 it2)
       \<and> operator_eq (end_tm s1) (end_tm s2)
       \<and> (\<not> isLegal it1 \<and> \<not> isLegal it2 \<longrightarrow> operator_eq it1 it2)
       \<and> (\<forall>b1 b2 e1 e2. begin_tm s = Some b1 \<and> begin_tm s = Some b2
              \<and> advance (fst s) n b1 = Some (e1, Inr ())
              \<and> advance (fst s) n b2 = Some (e2, Inr ()) \<longrightarrow> operator_eq e1 e2)
       \<and> (\<forall>t. TreeMap_inv s t \<and> n \<le> nodes t \<longrightarrow>
             (\<exists>b e. begin_tm s = Some b \<and> advance (fst s) n b = Some (e, Inr ())
                \<and> (n = nodes t \<longrightarrow> operator_eq e (end_tm s2))))"
proof -
  have 1: "operator_eq it1 it2 \<longleftrightarrow>
            length (toBeProcessed_f it1) = length (toBeProcessed_f it2)
          \<and> (\<forall>i < length (toBeProcessed_f it1). toBeProcessed_f it1 ! i = toBeProcessed_f it2 ! i)"
    by (simp add: operator_eq_def list_eq_iff_nth_eq)
  have 2: "operator_neq it1 it2 \<longleftrightarrow> \<not> operator_eq it1 it2"
    by (simp add: operator_eq_def operator_neq_def)
  have 3: "operator_eq (end_tm s1) (end_tm s2)"
    by (simp add: operator_eq_def end_tm_def)
  have 4: "\<not> isLegal it1 \<and> \<not> isLegal it2 \<longrightarrow> operator_eq it1 it2"
    by (simp add: operator_eq_def isLegal_def)
  have 5: "\<forall>b1 b2 e1 e2. begin_tm s = Some b1 \<and> begin_tm s = Some b2
              \<and> advance (fst s) n b1 = Some (e1, Inr ())
              \<and> advance (fst s) n b2 = Some (e2, Inr ()) \<longrightarrow> operator_eq e1 e2"
    by (auto simp: operator_eq_def)
  have 6: "\<exists>b e. begin_tm s = Some b \<and> advance (fst s) n b = Some (e, Inr ())
                \<and> (n = nodes t \<longrightarrow> operator_eq e (end_tm s2))"
    if "TreeMap_inv s t" "n \<le> nodes t" for t
  proof -
    obtain h tm where s: "s = (h, tm)" by (cases s) auto
    have "tree_of h (root_f tm) t" using that(1) s by (simp add: TreeMap_inv_def)
    from advance_begin[OF this that(2)] show ?thesis
      using s by (auto simp: operator_eq_def end_tm_def)
  qed
  show ?thesis using 1 2 3 4 5 6 by blast
qed

theorem iterator_equality_witness:
  "TreeMap_inv (ex_heap, ex_tm) ex_tree \<and> 2 \<le> nodes ex_tree
   \<and> begin_tm (ex_heap, ex_tm) = Some \<lparr>toBeProcessed_f = [2, 1]\<rparr>
   \<and> advance (fst (ex_heap, ex_tm)) 2 \<lparr>toBeProcessed_f = [2, 1]\<rparr>
        = Some (\<lparr>toBeProcessed_f = [3]\<rparr>, Inr ())
   \<and> operator_eq \<lparr>toBeProcessed_f = [3]\<rparr> \<lparr>toBeProcessed_f = [3]\<rparr>
   \<and> \<not> isLegal TreeIterator_end \<and> \<not> isLegal \<lparr>toBeProcessed_f = []\<rparr>
   \<and> operator_eq TreeIterator_end \<lparr>toBeProcessed_f = []\<rparr>
   \<and> operator_eq (end_tm (ex_heap, ex_tm)) (end_tm (Map.empty :: (nat, nat) heap, TreeMap_ctor))
   \<and> operator_neq \<lparr>toBeProcessed_f = [2, 1]\<rparr> \<lparr>toBeProcessed_f = [3]\<rparr>"
proof -
  have t: "tree_of ex_heap (root_f ex_tm) ex_tree"
    by (simp add: ex_heap_def ex_tm_def ex_tree_def)
  have h1: "begin_tm (ex_heap, ex_tm) = Some \<lparr>toBeProcessed_f = [2, 1]\<rparr>"
    using begin_tree[OF t] by (simp add: ex_tree_def)
  have p1: "operator_preinc ex_heap \<lparr>toBeProcessed_f = [2, 1]\<rparr> = Some (\<lparr>toBeProcessed_f = [1]\<rparr>, Inr ())"
    using operator_preinc_tree[of "\<lparr>toBeProcessed_f = [2, 1]\<rparr>" 2 "[1]" ex_heap _ Tip]
    by (simp add: ex_heap_def)
  have p2: "operator_preinc ex_heap \<lparr>toBeProcessed_f = [1]\<rparr> = Some (\<lparr>toBeProcessed_f = [3]\<rparr>, Inr ())"
    using operator_preinc_tree[of "\<lparr>toBeProcessed_f = [1]\<rparr>" 1 "[]" ex_heap _
        "Br Tip 3 (8, CHR ''c'') Tip"]
    by (simp add: ex_heap_def)
  have h2: "advance (fst (ex_heap, ex_tm)) 2 \<lparr>toBeProcessed_f = [2, 1]\<rparr>
        = Some (\<lparr>toBeProcessed_f = [3]\<rparr>, Inr ())"
    using p1 p2 by (simp add: numeral_2_eq_2)
  have h3: "\<not> isLegal TreeIterator_end \<and> \<not> isLegal \<lparr>toBeProcessed_f = []\<rparr>"
    by (simp add: isLegal_def TreeIterator_end_def)
  note th = iterator_equality[where ?it1.0 = "\<lparr>toBeProcessed_f = [2, 1]\<rparr>"
      and ?it2.0 = "\<lparr>toBeProcessed_f = [3]\<rparr>" and ?s1.0 = "(ex_heap, ex_tm)"
      and ?s2.0 = "(Map.empty :: (nat, nat) heap, TreeMap_ctor)" and s = "(ex_heap, ex_tm)" and n = 2]
  note th2 = iterator_equality[where ?it1.0 = TreeIterator_end
      and ?it2.0 = "\<lparr>toBeProcessed_f = []\<rparr>" and ?s1.0 = "(ex_heap, ex_tm)"
      and ?s2.0 = "(Map.empty :: (nat, nat) heap, TreeMap_ctor)" and s = "(ex_heap, ex_tm)" and n = 2]
  have a: "operator_eq \<lparr>toBeProcessed_f = [3]\<rparr> \<lparr>toBeProcessed_f = [3]\<rparr>"
    using th h1 h2 by blast
  have b: "operator_eq TreeIterator_end \<lparr>toBeProcessed_f = []\<rparr>" using th2 h3 by blast
  have c: "operator_eq (end_tm (ex_heap, ex_tm)) (end_tm (Map.empty :: (nat, nat) heap, TreeMap_ctor))" using th by blast
  have "\<not> operator_eq \<lparr>toBeProcessed_f = [2, 1]\<rparr> \<lparr>toBeProcessed_f = [3]\<rparr>"
    using th by simp
  then have d: "operator_neq \<lparr>toBeProcessed_f = [2, 1]\<rparr> \<lparr>toBeProcessed_f = [3]\<rparr>"
    using th by blast
  have i: "TreeMap_inv (ex_heap, ex_tm) ex_tree \<and> 2 \<le> nodes ex_tree"
    by (simp add: TreeMap_inv_def ex_heap_def ex_tm_def ex_tree_def keys_def)
  show ?thesis using i h1 h2 h3 a b c d by blast
qed

text \<open>
  Claim C10. For an empty map (\<^verbatim>\<open>root_\<close> is null), in any store, \<^verbatim>\<open>begin()\<close> returns an
  iterator that is equal to \<^verbatim>\<open>end()\<close> and not legal, and \<^verbatim>\<open>operator*\<close>, \<^verbatim>\<open>operator->\<close>
  and both forms of \<^verbatim>\<open>operator++\<close> throw the \<^verbatim>\<open>out_of_range\<close> exception of an exhausted
  iterator on it and leave it unchanged.
\<close>

theorem begin_of_empty_is_end:
  assumes "root_f tm = None"
  shows "\<exists>it. begin_tm (h, tm) = Some it
          \<and> operator_eq it (end_tm (h, tm)) \<and> \<not> operator_neq it (end_tm (h, tm))
          \<and> \<not> isLegal it
          \<and> operator_deref h it = Some (Inl IteratorExhausted)
          \<and> operator_arrow h it = Some (Inl IteratorExhausted)
          \<and> operator_preinc h it = Some (it, Inl IteratorExhausted)
          \<and> operator_postinc h it = Some (it, Inl IteratorExhausted)"
proof -
  have "push_left_chain h None [] = Some []" by (subst push_left_chain.simps) simp
  then have "begin_tm (h, tm) = Some \<lparr>toBeProcessed_f = []\<rparr>"
    using assms by (simp add: begin_tm_def TreeIterator_root_def)
  then show ?thesis
    by (simp add: operator_eq_def operator_neq_def end_tm_def TreeIterator_end_def isLegal_def
        operator_deref_def operator_arrow_def operator_preinc_def operator_postinc_def)
qed

theorem begin_of_empty_is_end_witness:
  "root_f TreeMap_ctor = None
   \<and> (\<exists>it. begin_tm (ex_heap, TreeMap_ctor) = Some it
          \<and> operator_eq it (end_tm (ex_heap, TreeMap_ctor))
          \<and> \<not> operator_neq it (end_tm (ex_heap, TreeMap_ctor))
          \<and> \<not> isLegal it
          \<and> operator_deref ex_heap it = Some (Inl IteratorExhausted)
          \<and> operator_arrow ex_heap it = Some (Inl IteratorExhausted)
          \<and> operator_preinc ex_heap it = Some (it, Inl IteratorExhausted)
          \<and> operator_postinc ex_heap it = Some (it, Inl IteratorExhausted))"
proof -
  have h1: "root_f TreeMap_ctor = None" by (simp add: TreeMap_ctor_def)
  show ?thesis using h1 begin_of_empty_is_end[OF h1, of ex_heap] by blast
qed

end
